theory Spec2Isabelle
  imports Main "HOL-Library.Word"
begin

section \<open>The board (board.h, board.c)\<close>

text \<open>
  The three symbols are the character constants of board.h. A board is the struct
  \<^verbatim>\<open>board_s\<close>: an unsigned 8-bit size and the block of cells that \<^verbatim>\<open>cells\<close> points to,
  kept as the list of the bytes that were allocated. The field \<^verbatim>\<open>size\<close> is called
  \<open>bsize\<close> here.
\<close>

definition NOUGHT :: char where "NOUGHT = CHR ''O''"
definition CROSS :: char where "CROSS = CHR ''X''"
definition EMPTY :: char where "EMPTY = CHR '' ''"

record board =
  bsize :: "8 word"
  cells :: "char list"

text \<open>
  What ends a call other than a return: a failed \<^verbatim>\<open>assert\<close>, an access to
  \<^verbatim>\<open>cells\<close> outside the allocated block, and the use of a local variable that was never
  assigned.
\<close>

datatype error = AssertionFailed | OutOfBounds | Uninitialised

text \<open>\<^verbatim>\<open>board->cells[i]\<close> as a read and as a write; \<open>i\<close> is the C \<^verbatim>\<open>int\<close> index.\<close>

definition readCell :: "board \<Rightarrow> nat \<Rightarrow> error + char" where
  "readCell board i =
     (if i < length (cells board) then Inr (cells board ! i) else Inl OutOfBounds)"

definition writeCell :: "board \<Rightarrow> nat \<Rightarrow> char \<Rightarrow> error + board" where
  "writeCell board i symbol =
     (if i < length (cells board)
      then Inr (board\<lparr>cells := (cells board)[i := symbol]\<rparr>)
      else Inl OutOfBounds)"

text \<open>
  The bound \<^verbatim>\<open>board->size * board->size\<close> of the loops over cells is computed in
  \<^verbatim>\<open>int\<close>, after integer promotion, so it does not wrap at 256.
\<close>

definition cellCount :: "board \<Rightarrow> nat" where
  "cellCount board = unat (bsize board) * unat (bsize board)"

subsection \<open>resetBoard and initBoard\<close>

text \<open>
  The loop counter \<^verbatim>\<open>cell\<close> is a \<^verbatim>\<open>uint8_t\<close>: \<^verbatim>\<open>cell += 1\<close> wraps from 255 to 0, and
  the comparison with the bound happens in \<^verbatim>\<open>int\<close>. The loop may not end, so it runs on
  fuel: \<open>None\<close> means that the fuel ran out.
\<close>

fun resetBoard_loop :: "nat \<Rightarrow> board \<Rightarrow> 8 word \<Rightarrow> (error + board) option" where
  "resetBoard_loop 0 board cell = None"
| "resetBoard_loop (Suc fuel) board cell =
     (if unat cell < cellCount board then
        (case writeCell board (unat cell) EMPTY of
           Inl e \<Rightarrow> Some (Inl e)
         | Inr board' \<Rightarrow> resetBoard_loop fuel board' (cell + 1))
      else Some (Inr board))"

definition resetBoard :: "nat \<Rightarrow> board \<Rightarrow> (error + board) option" where
  "resetBoard fuel board = resetBoard_loop fuel board 0"

text \<open>
  initBoard allocates \<^verbatim>\<open>sizeof(char) * size\<close> bytes for the cells and then calls
  resetBoard. The fresh block holds arbitrary bytes, given by \<open>fresh\<close>; the parameter \<^verbatim>\<open>size\<close> is \<open>sz\<close>; both
  allocations are taken to succeed.
\<close>

definition initBoard :: "nat \<Rightarrow> (nat \<Rightarrow> char) \<Rightarrow> 8 word \<Rightarrow> (error + board) option" where
  "initBoard fuel fresh sz =
     resetBoard fuel \<lparr>bsize = sz, cells = map fresh [0..<unat sz]\<rparr>"

subsection \<open>isWin\<close>

text \<open>
  The four scans. Their counter \<open>i\<close> stays below \<^verbatim>\<open>board->size\<close>, itself at most 255,
  so these loops end; the index is computed in \<^verbatim>\<open>int\<close>. In the backward diagonal
  \<^verbatim>\<open>size - 1 - i\<close> is not negative, since \<open>i < size\<close> there.
\<close>

lemma uint8_incr: "(i :: 8 word) < n \<Longrightarrow> unat (i + 1) = Suc (unat i)"
proof -
  assume "i < n"
  then have "unat i < unat n"
    by (simp add: word_less_nat_alt)
  moreover have "unat n < 256"
    using unsigned_less [of n, where ?'a = nat] by simp
  ultimately show ?thesis
    by (simp add: unat_word_ariths)
qed

lemma uint8_loop_measure: "(i :: 8 word) < n \<Longrightarrow> unat n - unat (i + 1) < unat n - unat i"
  by (simp add: uint8_incr word_less_nat_alt)

function isWinRow_loop :: "board \<Rightarrow> 8 word \<Rightarrow> char \<Rightarrow> 8 word \<Rightarrow> error + bool" where
  "isWinRow_loop board row symbol i =
     (if i < bsize board then
        (case readCell board (unat (bsize board) * unat row + unat i) of
           Inl e \<Rightarrow> Inl e
         | Inr c \<Rightarrow> if c \<noteq> symbol then Inr False
                    else isWinRow_loop board row symbol (i + 1))
      else Inr True)"
  by pat_completeness auto
termination
  by (relation "measure (\<lambda>(board, row, symbol, i). unat (bsize board) - unat i)")
     (auto simp: uint8_loop_measure)

declare isWinRow_loop.simps [simp del]

definition isWinRow :: "board \<Rightarrow> 8 word \<Rightarrow> char \<Rightarrow> error + bool" where
  "isWinRow board row symbol = isWinRow_loop board row symbol 0"

function isWinCol_loop :: "board \<Rightarrow> 8 word \<Rightarrow> char \<Rightarrow> 8 word \<Rightarrow> error + bool" where
  "isWinCol_loop board column symbol i =
     (if i < bsize board then
        (case readCell board (unat column + unat (bsize board) * unat i) of
           Inl e \<Rightarrow> Inl e
         | Inr c \<Rightarrow> if c \<noteq> symbol then Inr False
                    else isWinCol_loop board column symbol (i + 1))
      else Inr True)"
  by pat_completeness auto
termination
  by (relation "measure (\<lambda>(board, column, symbol, i). unat (bsize board) - unat i)")
     (auto simp: uint8_loop_measure)

declare isWinCol_loop.simps [simp del]

definition isWinCol :: "board \<Rightarrow> 8 word \<Rightarrow> char \<Rightarrow> error + bool" where
  "isWinCol board column symbol = isWinCol_loop board column symbol 0"

function isWinForwardDiag_loop :: "board \<Rightarrow> char \<Rightarrow> 8 word \<Rightarrow> error + bool" where
  "isWinForwardDiag_loop board symbol i =
     (if i < bsize board then
        (case readCell board (unat (bsize board) * unat i + unat i) of
           Inl e \<Rightarrow> Inl e
         | Inr c \<Rightarrow> if c \<noteq> symbol then Inr False
                    else isWinForwardDiag_loop board symbol (i + 1))
      else Inr True)"
  by pat_completeness auto
termination
  by (relation "measure (\<lambda>(board, symbol, i). unat (bsize board) - unat i)")
     (auto simp: uint8_loop_measure)

declare isWinForwardDiag_loop.simps [simp del]

definition isWinForwardDiag :: "board \<Rightarrow> char \<Rightarrow> error + bool" where
  "isWinForwardDiag board symbol = isWinForwardDiag_loop board symbol 0"

function isWinBackwardDiag_loop :: "board \<Rightarrow> char \<Rightarrow> 8 word \<Rightarrow> error + bool" where
  "isWinBackwardDiag_loop board symbol i =
     (if i < bsize board then
        (case readCell board
                (unat (bsize board) * (unat (bsize board) - 1 - unat i) + unat i) of
           Inl e \<Rightarrow> Inl e
         | Inr c \<Rightarrow> if c \<noteq> symbol then Inr False
                    else isWinBackwardDiag_loop board symbol (i + 1))
      else Inr True)"
  by pat_completeness auto
termination
  by (relation "measure (\<lambda>(board, symbol, i). unat (bsize board) - unat i)")
     (auto simp: uint8_loop_measure)

declare isWinBackwardDiag_loop.simps [simp del]

definition isWinBackwardDiag :: "board \<Rightarrow> char \<Rightarrow> error + bool" where
  "isWinBackwardDiag board symbol = isWinBackwardDiag_loop board symbol 0"

text \<open>The loop of isWin over rows and columns, with the short-circuit \<^verbatim>\<open>||\<close>.\<close>

function isWin_loop :: "board \<Rightarrow> char \<Rightarrow> 8 word \<Rightarrow> error + bool" where
  "isWin_loop board symbol i =
     (if i < bsize board then
        (case isWinRow board i symbol of
           Inl e \<Rightarrow> Inl e
         | Inr r \<Rightarrow> if r then Inr True
                    else (case isWinCol board i symbol of
                            Inl e \<Rightarrow> Inl e
                          | Inr c \<Rightarrow> if c then Inr True
                                     else isWin_loop board symbol (i + 1)))
      else Inr False)"
  by pat_completeness auto
termination
  by (relation "measure (\<lambda>(board, symbol, i). unat (bsize board) - unat i)")
     (auto simp: uint8_loop_measure)

declare isWin_loop.simps [simp del]

definition isWin :: "board \<Rightarrow> char \<Rightarrow> error + bool" where
  "isWin board symbol =
     (case isWinForwardDiag board symbol of
        Inl e \<Rightarrow> Inl e
      | Inr f \<Rightarrow> if f then Inr True
                 else (case isWinBackwardDiag board symbol of
                         Inl e \<Rightarrow> Inl e
                       | Inr b \<Rightarrow> if b then Inr True else isWin_loop board symbol 0))"

subsection \<open>isDraw, isValidMove, getSize, getCell, setCell\<close>

fun isDraw_loop :: "nat \<Rightarrow> board \<Rightarrow> 8 word \<Rightarrow> (error + bool) option" where
  "isDraw_loop 0 board cell = None"
| "isDraw_loop (Suc fuel) board cell =
     (if unat cell < cellCount board then
        (case readCell board (unat cell) of
           Inl e \<Rightarrow> Some (Inl e)
         | Inr c \<Rightarrow> if c = EMPTY then Some (Inr False)
                    else isDraw_loop fuel board (cell + 1))
      else Some (Inr True))"

definition isDraw :: "nat \<Rightarrow> board \<Rightarrow> (error + bool) option" where
  "isDraw fuel board =
     (case isWin board NOUGHT of
        Inl e \<Rightarrow> Some (Inl e)
      | Inr n \<Rightarrow> if n then Some (Inr False)
                 else (case isWin board CROSS of
                         Inl e \<Rightarrow> Some (Inl e)
                       | Inr c \<Rightarrow> if c then Some (Inr False)
                                  else isDraw_loop fuel board 0))"

text \<open>\<^verbatim>\<open>cell >= 0\<close> holds of every \<^verbatim>\<open>uint8_t\<close>; \<^verbatim>\<open>&&\<close> and \<^verbatim>\<open>||\<close> short-circuit.\<close>

definition isValidMove :: "board \<Rightarrow> 8 word \<Rightarrow> char \<Rightarrow> error + bool" where
  "isValidMove board cell symbol =
     (if unat cell < cellCount board then
        (if symbol = EMPTY then Inr True
         else (case readCell board (unat cell) of
                 Inl e \<Rightarrow> Inl e
               | Inr c \<Rightarrow> Inr (c = EMPTY)))
      else Inr False)"

definition getSize :: "board \<Rightarrow> 8 word" where
  "getSize board = bsize board"

definition getCell :: "board \<Rightarrow> 8 word \<Rightarrow> error + char" where
  "getCell board cell =
     (case isValidMove board cell EMPTY of
        Inl e \<Rightarrow> Inl e
      | Inr v \<Rightarrow> if v then readCell board (unat cell) else Inl AssertionFailed)"

definition setCell :: "board \<Rightarrow> 8 word \<Rightarrow> char \<Rightarrow> error + board" where
  "setCell board cell symbol =
     (if \<not> (symbol = NOUGHT \<or> symbol = CROSS \<or> symbol = EMPTY) then Inl AssertionFailed
      else (case isValidMove board cell symbol of
              Inl e \<Rightarrow> Inl e
            | Inr v \<Rightarrow> if v then writeCell board (unat cell) symbol
                       else Inl AssertionFailed))"

subsection \<open>Well-formed boards and full lines\<close>

text \<open>
  The invariant of the data model: the block of cells holds exactly
  \<^verbatim>\<open>size * size\<close> cells. The accesses of the operations below stay inside the block on
  such a board.
\<close>

definition wellFormed :: "board \<Rightarrow> bool" where
  "wellFormed board = (length (cells board) = cellCount board)"

text \<open>Row \<open>r\<close>, respectively column \<open>c\<close>, holds \<open>symbol\<close> in every cell.\<close>

definition rowFull :: "board \<Rightarrow> char \<Rightarrow> nat \<Rightarrow> bool" where
  "rowFull board symbol r =
     (\<forall>j < unat (bsize board). cells board ! (unat (bsize board) * r + j) = symbol)"

definition colFull :: "board \<Rightarrow> char \<Rightarrow> nat \<Rightarrow> bool" where
  "colFull board symbol c =
     (\<forall>j < unat (bsize board). cells board ! (c + unat (bsize board) * j) = symbol)"

text \<open>The number of empty cells, which bounds the depth of the search.\<close>

definition emptyCells :: "board \<Rightarrow> nat" where
  "emptyCells board = length (filter (\<lambda>c. c = EMPTY) (cells board))"

section \<open>The search (minimax.c)\<close>

text \<open>
  The base scores are \<^verbatim>\<open>int\<close> constants: \<^verbatim>\<open>INT8_MAX\<close>, \<^verbatim>\<open>INT8_MIN\<close> and 0. Scores
  travel as \<^verbatim>\<open>int8_t\<close>; they are integers here, and \<open>int8\<close> is the conversion of an
  \<^verbatim>\<open>int\<close> to \<^verbatim>\<open>int8_t\<close> (reduction modulo 256 into the range from -128 to 127) where
  the source returns an \<^verbatim>\<open>int\<close> expression. The depth is a \<^verbatim>\<open>uint8_t\<close>. The local
  functions \<^verbatim>\<open>min\<close> and \<^verbatim>\<open>max\<close> are \<open>min_int8\<close> and \<open>max_int8\<close>.
\<close>

definition SCORE_WIN :: int where "SCORE_WIN = 127"
definition SCORE_LOSE :: int where "SCORE_LOSE = - 128"
definition SCORE_DRAW :: int where "SCORE_DRAW = 0"

definition int8 :: "int \<Rightarrow> int" where
  "int8 x = (x + 128) mod 256 - 128"

definition min_int8 :: "int \<Rightarrow> int \<Rightarrow> int" where
  "min_int8 a b = (if a < b then a else b)"

definition max_int8 :: "int \<Rightarrow> int \<Rightarrow> int" where
  "max_int8 a b = (if a > b then a else b)"

text \<open>
  A call either runs out of fuel (\<open>None\<close>), stops at an error, or returns. \<open>andThen\<close>
  sequences two steps: the second runs on the result of the first if the first returned.
\<close>

definition andThen :: "(error + 'a) option \<Rightarrow> ('a \<Rightarrow> (error + 'b) option) \<Rightarrow> (error + 'b) option" where
  "andThen m f = (case m of None \<Rightarrow> None | Some (Inl e) \<Rightarrow> Some (Inl e) | Some (Inr x) \<Rightarrow> f x)"

text \<open>
  minimise and maximise with their loops over the cells. The board is changed in place by
  setCell, so each function takes the board and returns it with the score. Every call
  and every loop iteration takes one unit of fuel.
\<close>

function minimise :: "nat \<Rightarrow> board \<Rightarrow> char \<Rightarrow> char \<Rightarrow> 8 word \<Rightarrow> int \<Rightarrow> int \<Rightarrow> (error + board \<times> int) option"
  and minimise_loop :: "nat \<Rightarrow> board \<Rightarrow> char \<Rightarrow> char \<Rightarrow> 8 word \<Rightarrow> int \<Rightarrow> int \<Rightarrow> 8 word \<Rightarrow> (error + board \<times> int) option"
  and maximise :: "nat \<Rightarrow> board \<Rightarrow> char \<Rightarrow> char \<Rightarrow> 8 word \<Rightarrow> int \<Rightarrow> int \<Rightarrow> (error + board \<times> int) option"
  and maximise_loop :: "nat \<Rightarrow> board \<Rightarrow> char \<Rightarrow> char \<Rightarrow> 8 word \<Rightarrow> int \<Rightarrow> int \<Rightarrow> 8 word \<Rightarrow> (error + board \<times> int) option"
where
  "minimise 0 board symbolSelf symbolOther depth alpha beta = None"
| "minimise (Suc fuel) board symbolSelf symbolOther depth alpha beta =
     andThen (Some (isWin board symbolOther)) (\<lambda>lost.
       if lost then Some (Inr (board, int8 (SCORE_LOSE + int (unat depth))))
       else andThen (isDraw fuel board) (\<lambda>draw.
         if draw then Some (Inr (board, int8 SCORE_DRAW))
         else minimise_loop fuel board symbolSelf symbolOther depth alpha beta 0))"
| "minimise_loop 0 board symbolSelf symbolOther depth alpha beta cell = None"
| "minimise_loop (Suc fuel) board symbolSelf symbolOther depth alpha beta cell =
     (if unat cell < unat (getSize board) * unat (getSize board) then
        andThen (Some (isValidMove board cell symbolOther)) (\<lambda>valid.
          if valid then
            andThen (Some (setCell board cell symbolOther)) (\<lambda>board1.
            andThen (maximise fuel board1 symbolSelf symbolOther (depth + 1) alpha beta)
              (\<lambda>(board2, score).
            andThen (Some (setCell board2 cell EMPTY)) (\<lambda>board3.
              if min_int8 beta score \<le> alpha then Some (Inr (board3, alpha))
              else minimise_loop fuel board3 symbolSelf symbolOther depth alpha
                     (min_int8 beta score) (cell + 1))))
          else minimise_loop fuel board symbolSelf symbolOther depth alpha beta (cell + 1))
      else Some (Inr (board, beta)))"
| "maximise 0 board symbolSelf symbolOther depth alpha beta = None"
| "maximise (Suc fuel) board symbolSelf symbolOther depth alpha beta =
     andThen (Some (isWin board symbolSelf)) (\<lambda>won.
       if won then Some (Inr (board, int8 (SCORE_WIN - int (unat depth))))
       else andThen (isDraw fuel board) (\<lambda>draw.
         if draw then Some (Inr (board, int8 SCORE_DRAW))
         else maximise_loop fuel board symbolSelf symbolOther depth alpha beta 0))"
| "maximise_loop 0 board symbolSelf symbolOther depth alpha beta cell = None"
| "maximise_loop (Suc fuel) board symbolSelf symbolOther depth alpha beta cell =
     (if unat cell < unat (getSize board) * unat (getSize board) then
        andThen (Some (isValidMove board cell symbolSelf)) (\<lambda>valid.
          if valid then
            andThen (Some (setCell board cell symbolSelf)) (\<lambda>board1.
            andThen (minimise fuel board1 symbolSelf symbolOther (depth + 1) alpha beta)
              (\<lambda>(board2, score).
            andThen (Some (setCell board2 cell EMPTY)) (\<lambda>board3.
              if max_int8 alpha score \<ge> beta then Some (Inr (board3, beta))
              else maximise_loop fuel board3 symbolSelf symbolOther depth
                     (max_int8 alpha score) beta (cell + 1))))
          else maximise_loop fuel board symbolSelf symbolOther depth alpha beta (cell + 1))
      else Some (Inr (board, alpha)))"
  by pat_completeness auto
termination
  by (relation "measure (\<lambda>call. case call of
         Inl (Inl a) \<Rightarrow> fst a | Inl (Inr a) \<Rightarrow> fst a
       | Inr (Inl a) \<Rightarrow> fst a | Inr (Inr a) \<Rightarrow> fst a)") simp_all

text \<open>
  getBestMove. The local \<^verbatim>\<open>bestMove\<close> has no initial value: it is \<open>None\<close> until the
  first assignment. The loop returns the board, \<^verbatim>\<open>alpha\<close> and \<^verbatim>\<open>bestMove\<close>; then comes
  the \<^verbatim>\<open>assert\<close>, and the return of \<^verbatim>\<open>bestMove\<close>.
\<close>

fun getBestMove_loop :: "nat \<Rightarrow> board \<Rightarrow> char \<Rightarrow> char \<Rightarrow> int \<Rightarrow> int \<Rightarrow> 8 word option \<Rightarrow> 8 word \<Rightarrow> (error + board \<times> int \<times> 8 word option) option" where
  "getBestMove_loop 0 board symbolSelf symbolOther alpha beta bestMove cell = None"
| "getBestMove_loop (Suc fuel) board symbolSelf symbolOther alpha beta bestMove cell =
     (if unat cell < unat (getSize board) * unat (getSize board) then
        andThen (Some (isValidMove board cell symbolSelf)) (\<lambda>valid.
          if valid then
            andThen (Some (setCell board cell symbolSelf)) (\<lambda>board1.
            andThen (minimise fuel board1 symbolSelf symbolOther 1 alpha beta)
              (\<lambda>(board2, score).
            andThen (Some (setCell board2 cell EMPTY)) (\<lambda>board3.
              if score > alpha
              then getBestMove_loop fuel board3 symbolSelf symbolOther score beta
                     (Some cell) (cell + 1)
              else getBestMove_loop fuel board3 symbolSelf symbolOther alpha beta
                     bestMove (cell + 1))))
          else getBestMove_loop fuel board symbolSelf symbolOther alpha beta bestMove
                 (cell + 1))
      else Some (Inr (board, alpha, bestMove)))"

definition getBestMove :: "nat \<Rightarrow> board \<Rightarrow> char \<Rightarrow> (error + board \<times> 8 word) option" where
  "getBestMove fuel board symbolSelf =
     (let symbolOther = (if symbolSelf = NOUGHT then CROSS else NOUGHT) in
      andThen (getBestMove_loop fuel board symbolSelf symbolOther
                 (int8 SCORE_LOSE) (int8 SCORE_WIN) None 0)
        (\<lambda>(board', alpha, bestMove).
           if \<not> alpha \<noteq> SCORE_LOSE then Some (Inl AssertionFailed)
           else (case bestMove of
                   None \<Rightarrow> Some (Inl Uninitialised)
                 | Some cell \<Rightarrow> Some (Inr (board', cell)))))"

section \<open>The exhaustive search of the specification\<close>

text \<open>
  The search as the specification words it, without pruning, for comparison with
  getBestMove. A symbol has won when a full row, a full column, the forward diagonal
  or the backward diagonal holds it; the lines are given by their cell indices. A
  position is a draw when neither symbol has won and no cell is empty. A terminal
  position scores \<open>SCORE_WIN - depth\<close> if self has won, \<open>SCORE_LOSE + depth\<close> if the
  opponent has won, and 0 if it is a draw, where \<open>depth\<close> counts the plies made since the
  top-level call. Otherwise the maximising step takes the highest score of the valid
  moves and the minimising step the lowest. The first argument bounds the number of
  plies that are still explored; the top level passes the number of cells.
\<close>

definition winLines :: "nat \<Rightarrow> nat list list" where
  "winLines n =
     map (\<lambda>r. map (\<lambda>j. r * n + j) [0..<n]) [0..<n] @
     map (\<lambda>c. map (\<lambda>j. c + j * n) [0..<n]) [0..<n] @
     [map (\<lambda>i. i * n + i) [0..<n], map (\<lambda>i. (n - 1 - i) * n + i) [0..<n]]"

definition specWin :: "board \<Rightarrow> char \<Rightarrow> bool" where
  "specWin board symbol =
     (\<exists>line \<in> set (winLines (unat (bsize board))). \<forall>i \<in> set line. cells board ! i = symbol)"

definition specDraw :: "board \<Rightarrow> bool" where
  "specDraw board =
     (\<not> specWin board NOUGHT \<and> \<not> specWin board CROSS \<and> EMPTY \<notin> set (cells board))"

definition specMoves :: "board \<Rightarrow> nat list" where
  "specMoves board = filter (\<lambda>c. cells board ! c = EMPTY) [0..<cellCount board]"

definition place :: "board \<Rightarrow> nat \<Rightarrow> char \<Rightarrow> board" where
  "place board c symbol = board\<lparr>cells := (cells board)[c := symbol]\<rparr>"

definition specTerminal :: "board \<Rightarrow> char \<Rightarrow> char \<Rightarrow> int \<Rightarrow> int option" where
  "specTerminal board symbolSelf symbolOther depth =
     (if specWin board symbolSelf then Some (SCORE_WIN - depth)
      else if specWin board symbolOther then Some (SCORE_LOSE + depth)
      else if specDraw board then Some SCORE_DRAW
      else None)"

fun exhaustiveMin :: "nat \<Rightarrow> board \<Rightarrow> char \<Rightarrow> char \<Rightarrow> int \<Rightarrow> int"
  and exhaustiveMax :: "nat \<Rightarrow> board \<Rightarrow> char \<Rightarrow> char \<Rightarrow> int \<Rightarrow> int"
where
  "exhaustiveMin 0 board symbolSelf symbolOther depth =
     (case specTerminal board symbolSelf symbolOther depth of Some v \<Rightarrow> v | None \<Rightarrow> SCORE_DRAW)"
| "exhaustiveMin (Suc plies) board symbolSelf symbolOther depth =
     (case specTerminal board symbolSelf symbolOther depth of
        Some v \<Rightarrow> v
      | None \<Rightarrow>
          Min (set (map (\<lambda>c. exhaustiveMax plies (place board c symbolOther)
                                 symbolSelf symbolOther (depth + 1))
                        (specMoves board))))"
| "exhaustiveMax 0 board symbolSelf symbolOther depth =
     (case specTerminal board symbolSelf symbolOther depth of Some v \<Rightarrow> v | None \<Rightarrow> SCORE_DRAW)"
| "exhaustiveMax (Suc plies) board symbolSelf symbolOther depth =
     (case specTerminal board symbolSelf symbolOther depth of
        Some v \<Rightarrow> v
      | None \<Rightarrow>
          Max (set (map (\<lambda>c. exhaustiveMin plies (place board c symbolSelf)
                                 symbolSelf symbolOther (depth + 1))
                        (specMoves board))))"

text \<open>
  The move of the exhaustive search: the lowest valid cell whose score is the highest
  among the valid moves; none when no cell is empty.
\<close>

definition exhaustiveScores :: "board \<Rightarrow> char \<Rightarrow> (nat \<times> int) list" where
  "exhaustiveScores board symbolSelf =
     (let symbolOther = (if symbolSelf = NOUGHT then CROSS else NOUGHT) in
      map (\<lambda>c. (c, exhaustiveMin (cellCount board) (place board c symbolSelf)
                       symbolSelf symbolOther 1))
          (specMoves board))"

definition exhaustiveBestMove :: "board \<Rightarrow> char \<Rightarrow> nat option" where
  "exhaustiveBestMove board symbolSelf =
     (let scored = exhaustiveScores board symbolSelf in
      map_option fst (find (\<lambda>(c, s). s = Max (set (map snd scored))) scored))"

section \<open>Example boards\<close>

text \<open>
  A 4x4 board whose column 1 holds crosses and nothing else; a full 3x3 board without
  a winner; a 3x3 board on which noughts, to move, win at once at cell 2 and win in
  three plies after cell 4; the same board after the move at cell 2; and a 3x3 board
  on which crosses, to move, lose whatever they play.
\<close>

definition boardColumn :: board where
  "boardColumn = \<lparr>bsize = 4, cells =
     [EMPTY, CROSS, EMPTY, EMPTY,
      EMPTY, CROSS, EMPTY, EMPTY,
      EMPTY, CROSS, EMPTY, EMPTY,
      EMPTY, CROSS, EMPTY, EMPTY]\<rparr>"

definition boardDrawn :: board where
  "boardDrawn = \<lparr>bsize = 3, cells =
     [CROSS, NOUGHT, CROSS,
      CROSS, NOUGHT, NOUGHT,
      NOUGHT, CROSS, CROSS]\<rparr>"

definition boardTwoWins :: board where
  "boardTwoWins = \<lparr>bsize = 3, cells =
     [NOUGHT, NOUGHT, EMPTY,
      CROSS, EMPTY, CROSS,
      NOUGHT, CROSS, EMPTY]\<rparr>"

definition boardWon :: board where
  "boardWon = \<lparr>bsize = 3, cells =
     [NOUGHT, NOUGHT, NOUGHT,
      CROSS, EMPTY, CROSS,
      NOUGHT, CROSS, EMPTY]\<rparr>"

definition boardLost :: board where
  "boardLost = \<lparr>bsize = 3, cells =
     [NOUGHT, EMPTY, CROSS,
      EMPTY, NOUGHT, NOUGHT,
      CROSS, NOUGHT, CROSS]\<rparr>"

text \<open>
  The board \<open>boardTwoWins\<close> after nought at 4, cross at 2 and nought at 8: full, and
  won by noughts on the forward diagonal.
\<close>

definition boardFullWon :: board where
  "boardFullWon = \<lparr>bsize = 3, cells =
     [NOUGHT, NOUGHT, CROSS,
      CROSS, NOUGHT, CROSS,
      NOUGHT, CROSS, NOUGHT]\<rparr>"

text \<open>
  A full 16x16 board without a winner: crosses and noughts alternate along every row, and
  the pattern shifts by one cell every second row.
\<close>

definition boardDrawn16 :: board where
  "boardDrawn16 = \<lparr>bsize = 16, cells =
     map (\<lambda>k. if (k mod 16 + (k div 16) div 2) mod 2 = 0 then CROSS else NOUGHT) [0..<256]\<rparr>"

section \<open>Properties of the board operations\<close>

lemma cell_index_bound:
  fixes n r i :: nat
  assumes "r < n" "i < n"
  shows "n * r + i < n * n"
proof -
  have "n * r + i < n * r + n" using assms by simp
  also have "\<dots> = n * Suc r" by simp
  also have "\<dots> \<le> n * n" using assms by (intro mult_le_mono2) simp
  finally show ?thesis .
qed

lemma isWinRow_loop_lines:
  assumes "wellFormed board" "row < bsize board"
  shows "isWinRow_loop board row symbol i =
    Inr (\<forall>j. unat i \<le> j \<and> j < unat (bsize board) \<longrightarrow>
           cells board ! (unat (bsize board) * unat row + j) = symbol)"
  using assms
proof (induction board row symbol i rule: isWinRow_loop.induct)
  case (1 board row symbol i)
  show ?case
  proof (cases "i < bsize board")
    case False
    then have "\<not> unat i < unat (bsize board)"
      by (simp add: word_less_nat_alt)
    then have "\<forall>j. unat i \<le> j \<and> j < unat (bsize board) \<longrightarrow>
           cells board ! (unat (bsize board) * unat row + j) = symbol"
      by auto
    with False show ?thesis
      by (subst isWinRow_loop.simps) simp
  next
    case True
    then have lt: "unat i < unat (bsize board)"
      by (simp add: word_less_nat_alt)
    have idx: "unat (bsize board) * unat row + unat i < length (cells board)"
      using lt 1(2,3) cell_index_bound [of "unat row" "unat (bsize board)" "unat i"]
      by (simp add: wellFormed_def cellCount_def word_less_nat_alt)
    have nxt: "unat (i + 1) = Suc (unat i)"
      using True by (rule uint8_incr)
    show ?thesis
    proof (cases "cells board ! (unat (bsize board) * unat row + unat i) = symbol")
      case False
      then have "\<not> (\<forall>j. unat i \<le> j \<and> j < unat (bsize board) \<longrightarrow>
           cells board ! (unat (bsize board) * unat row + j) = symbol)"
        using lt by blast
      with False True idx show ?thesis
        by (subst isWinRow_loop.simps) (simp add: readCell_def)
    next
      case eq: True
      have "isWinRow_loop board row symbol i = isWinRow_loop board row symbol (i + 1)"
        using True idx eq by (subst isWinRow_loop.simps) (simp add: readCell_def)
      also have "\<dots> = Inr (\<forall>j. unat (i + 1) \<le> j \<and> j < unat (bsize board) \<longrightarrow>
           cells board ! (unat (bsize board) * unat row + j) = symbol)"
        using 1(1)[OF True _ _ 1(2,3)] idx eq by (simp add: readCell_def)
      also have "(\<forall>j. unat (i + 1) \<le> j \<and> j < unat (bsize board) \<longrightarrow>
           cells board ! (unat (bsize board) * unat row + j) = symbol) =
         (\<forall>j. unat i \<le> j \<and> j < unat (bsize board) \<longrightarrow>
           cells board ! (unat (bsize board) * unat row + j) = symbol)"
        unfolding nxt using eq by (metis Suc_leI le_neq_implies_less Suc_leD)
      finally show ?thesis .
    qed
  qed
qed

lemma isWinCol_loop_lines:
  assumes "wellFormed board" "column < bsize board"
  shows "isWinCol_loop board column symbol i =
    Inr (\<forall>j. unat i \<le> j \<and> j < unat (bsize board) \<longrightarrow>
           cells board ! (unat column + unat (bsize board) * j) = symbol)"
  using assms
proof (induction board column symbol i rule: isWinCol_loop.induct)
  case (1 board column symbol i)
  show ?case
  proof (cases "i < bsize board")
    case False
    then have "\<not> unat i < unat (bsize board)"
      by (simp add: word_less_nat_alt)
    then have "\<forall>j. unat i \<le> j \<and> j < unat (bsize board) \<longrightarrow>
           cells board ! (unat column + unat (bsize board) * j) = symbol"
      by auto
    with False show ?thesis
      by (subst isWinCol_loop.simps) simp
  next
    case True
    then have lt: "unat i < unat (bsize board)"
      by (simp add: word_less_nat_alt)
    have idx: "unat column + unat (bsize board) * unat i < length (cells board)"
      using lt 1(2,3) cell_index_bound [of "unat i" "unat (bsize board)" "unat column"]
      by (simp add: wellFormed_def cellCount_def word_less_nat_alt add.commute)
    have nxt: "unat (i + 1) = Suc (unat i)"
      using True by (rule uint8_incr)
    show ?thesis
    proof (cases "cells board ! (unat column + unat (bsize board) * unat i) = symbol")
      case False
      then have "\<not> (\<forall>j. unat i \<le> j \<and> j < unat (bsize board) \<longrightarrow>
           cells board ! (unat column + unat (bsize board) * j) = symbol)"
        using lt by blast
      with False True idx show ?thesis
        by (subst isWinCol_loop.simps) (simp add: readCell_def)
    next
      case eq: True
      have "isWinCol_loop board column symbol i = isWinCol_loop board column symbol (i + 1)"
        using True idx eq by (subst isWinCol_loop.simps) (simp add: readCell_def)
      also have "\<dots> = Inr (\<forall>j. unat (i + 1) \<le> j \<and> j < unat (bsize board) \<longrightarrow>
           cells board ! (unat column + unat (bsize board) * j) = symbol)"
        using 1(1)[OF True _ _ 1(2,3)] idx eq by (simp add: readCell_def)
      also have "(\<forall>j. unat (i + 1) \<le> j \<and> j < unat (bsize board) \<longrightarrow>
           cells board ! (unat column + unat (bsize board) * j) = symbol) =
         (\<forall>j. unat i \<le> j \<and> j < unat (bsize board) \<longrightarrow>
           cells board ! (unat column + unat (bsize board) * j) = symbol)"
        unfolding nxt using eq by (metis Suc_leI le_neq_implies_less Suc_leD)
      finally show ?thesis .
    qed
  qed
qed

lemma isWinForwardDiag_loop_lines:
  assumes "wellFormed board"
  shows "isWinForwardDiag_loop board symbol i =
    Inr (\<forall>j. unat i \<le> j \<and> j < unat (bsize board) \<longrightarrow>
           cells board ! (unat (bsize board) * j + j) = symbol)"
  using assms
proof (induction board symbol i rule: isWinForwardDiag_loop.induct)
  case (1 board symbol i)
  show ?case
  proof (cases "i < bsize board")
    case False
    then have "\<not> unat i < unat (bsize board)"
      by (simp add: word_less_nat_alt)
    then have "\<forall>j. unat i \<le> j \<and> j < unat (bsize board) \<longrightarrow>
           cells board ! (unat (bsize board) * j + j) = symbol"
      by auto
    with False show ?thesis
      by (subst isWinForwardDiag_loop.simps) simp
  next
    case True
    then have lt: "unat i < unat (bsize board)"
      by (simp add: word_less_nat_alt)
    have idx: "unat (bsize board) * unat i + unat i < length (cells board)"
      using lt 1(2) cell_index_bound [of "unat i" "unat (bsize board)" "unat i"]
      by (simp add: wellFormed_def cellCount_def)
    have nxt: "unat (i + 1) = Suc (unat i)"
      using True by (rule uint8_incr)
    show ?thesis
    proof (cases "cells board ! (unat (bsize board) * unat i + unat i) = symbol")
      case False
      then have "\<not> (\<forall>j. unat i \<le> j \<and> j < unat (bsize board) \<longrightarrow>
           cells board ! (unat (bsize board) * j + j) = symbol)"
        using lt by blast
      with False True idx show ?thesis
        by (subst isWinForwardDiag_loop.simps) (simp add: readCell_def)
    next
      case eq: True
      have "isWinForwardDiag_loop board symbol i = isWinForwardDiag_loop board symbol (i + 1)"
        using True idx eq by (subst isWinForwardDiag_loop.simps) (simp add: readCell_def)
      also have "\<dots> = Inr (\<forall>j. unat (i + 1) \<le> j \<and> j < unat (bsize board) \<longrightarrow>
           cells board ! (unat (bsize board) * j + j) = symbol)"
        using 1(1)[OF True _ _ 1(2)] idx eq by (simp add: readCell_def)
      also have "(\<forall>j. unat (i + 1) \<le> j \<and> j < unat (bsize board) \<longrightarrow>
           cells board ! (unat (bsize board) * j + j) = symbol) =
         (\<forall>j. unat i \<le> j \<and> j < unat (bsize board) \<longrightarrow>
           cells board ! (unat (bsize board) * j + j) = symbol)"
        unfolding nxt using eq by (metis Suc_leI le_neq_implies_less Suc_leD)
      finally show ?thesis .
    qed
  qed
qed

lemma isWinBackwardDiag_loop_lines:
  assumes "wellFormed board"
  shows "isWinBackwardDiag_loop board symbol i =
    Inr (\<forall>j. unat i \<le> j \<and> j < unat (bsize board) \<longrightarrow>
           cells board ! (unat (bsize board) * (unat (bsize board) - 1 - j) + j) = symbol)"
  using assms
proof (induction board symbol i rule: isWinBackwardDiag_loop.induct)
  case (1 board symbol i)
  show ?case
  proof (cases "i < bsize board")
    case False
    then have "\<not> unat i < unat (bsize board)"
      by (simp add: word_less_nat_alt)
    then have "\<forall>j. unat i \<le> j \<and> j < unat (bsize board) \<longrightarrow>
           cells board ! (unat (bsize board) * (unat (bsize board) - 1 - j) + j) = symbol"
      by auto
    with False show ?thesis
      by (subst isWinBackwardDiag_loop.simps) simp
  next
    case True
    then have lt: "unat i < unat (bsize board)"
      by (simp add: word_less_nat_alt)
    have idx: "unat (bsize board) * (unat (bsize board) - 1 - unat i) + unat i < length (cells board)"
      using lt 1(2)
        cell_index_bound [of "unat (bsize board) - 1 - unat i" "unat (bsize board)" "unat i"]
      by (simp add: wellFormed_def cellCount_def)
    have nxt: "unat (i + 1) = Suc (unat i)"
      using True by (rule uint8_incr)
    show ?thesis
    proof (cases "cells board ! (unat (bsize board) * (unat (bsize board) - 1 - unat i) + unat i) = symbol")
      case False
      then have "\<not> (\<forall>j. unat i \<le> j \<and> j < unat (bsize board) \<longrightarrow>
           cells board ! (unat (bsize board) * (unat (bsize board) - 1 - j) + j) = symbol)"
        using lt by blast
      with False True idx show ?thesis
        by (subst isWinBackwardDiag_loop.simps) (simp add: readCell_def)
    next
      case eq: True
      have "isWinBackwardDiag_loop board symbol i = isWinBackwardDiag_loop board symbol (i + 1)"
        using True idx eq by (subst isWinBackwardDiag_loop.simps) (simp add: readCell_def)
      also have "\<dots> = Inr (\<forall>j. unat (i + 1) \<le> j \<and> j < unat (bsize board) \<longrightarrow>
           cells board ! (unat (bsize board) * (unat (bsize board) - 1 - j) + j) = symbol)"
        using 1(1)[OF True _ _ 1(2)] idx eq by (simp add: readCell_def)
      also have "(\<forall>j. unat (i + 1) \<le> j \<and> j < unat (bsize board) \<longrightarrow>
           cells board ! (unat (bsize board) * (unat (bsize board) - 1 - j) + j) = symbol) =
         (\<forall>j. unat i \<le> j \<and> j < unat (bsize board) \<longrightarrow>
           cells board ! (unat (bsize board) * (unat (bsize board) - 1 - j) + j) = symbol)"
        unfolding nxt using eq by (metis Suc_leI le_neq_implies_less Suc_leD)
      finally show ?thesis .
    qed
  qed
qed

lemma isWinRow_lines:
  assumes "wellFormed board" "row < bsize board"
  shows "isWinRow board row symbol =
    Inr (\<forall>j < unat (bsize board). cells board ! (unat (bsize board) * unat row + j) = symbol)"
  using isWinRow_loop_lines [OF assms, of symbol 0] by (simp add: isWinRow_def)

lemma isWinCol_lines:
  assumes "wellFormed board" "column < bsize board"
  shows "isWinCol board column symbol =
    Inr (\<forall>j < unat (bsize board). cells board ! (unat column + unat (bsize board) * j) = symbol)"
  using isWinCol_loop_lines [OF assms, of symbol 0] by (simp add: isWinCol_def)

lemma isWinForwardDiag_lines:
  assumes "wellFormed board"
  shows "isWinForwardDiag board symbol =
    Inr (\<forall>j < unat (bsize board). cells board ! (unat (bsize board) * j + j) = symbol)"
  using isWinForwardDiag_loop_lines [OF assms, of symbol 0] by (simp add: isWinForwardDiag_def)

lemma isWinBackwardDiag_lines:
  assumes "wellFormed board"
  shows "isWinBackwardDiag board symbol =
    Inr (\<forall>j < unat (bsize board).
           cells board ! (unat (bsize board) * (unat (bsize board) - 1 - j) + j) = symbol)"
  using isWinBackwardDiag_loop_lines [OF assms, of symbol 0]
  by (simp add: isWinBackwardDiag_def)

lemma isWin_loop_lines:
  assumes "wellFormed board"
  shows "isWin_loop board symbol i =
    Inr (\<exists>r. unat i \<le> r \<and> r < unat (bsize board) \<and>
           (rowFull board symbol r \<or> colFull board symbol r))"
  using assms
proof (induction board symbol i rule: isWin_loop.induct)
  case (1 board symbol i)
  show ?case
  proof (cases "i < bsize board")
    case False
    then have "\<not> unat i < unat (bsize board)"
      by (simp add: word_less_nat_alt)
    then have "\<not> (\<exists>r. unat i \<le> r \<and> r < unat (bsize board) \<and>
           (rowFull board symbol r \<or> colFull board symbol r))"
      by auto
    with False show ?thesis
      by (subst isWin_loop.simps) simp
  next
    case True
    then have lt: "unat i < unat (bsize board)"
      by (simp add: word_less_nat_alt)
    have nxt: "unat (i + 1) = Suc (unat i)"
      using True by (rule uint8_incr)
    have row: "isWinRow board i symbol = Inr (rowFull board symbol (unat i))"
      using isWinRow_lines [OF 1(2) True] by (simp add: rowFull_def)
    have col: "isWinCol board i symbol = Inr (colFull board symbol (unat i))"
      using isWinCol_lines [OF 1(2) True] by (simp add: colFull_def)
    show ?thesis
    proof (cases "rowFull board symbol (unat i) \<or> colFull board symbol (unat i)")
      case True
      then have "\<exists>r. unat i \<le> r \<and> r < unat (bsize board) \<and>
           (rowFull board symbol r \<or> colFull board symbol r)"
        using lt by blast
      with True \<open>i < bsize board\<close> row col show ?thesis
        by (subst isWin_loop.simps) auto
    next
      case none: False
      have "isWin_loop board symbol i = isWin_loop board symbol (i + 1)"
        using True row col none by (subst isWin_loop.simps) simp
      also have "\<dots> = Inr (\<exists>r. unat (i + 1) \<le> r \<and> r < unat (bsize board) \<and>
           (rowFull board symbol r \<or> colFull board symbol r))"
        using 1(1) [OF True row _ col _ 1(2)] none by simp
      also have "(\<exists>r. unat (i + 1) \<le> r \<and> r < unat (bsize board) \<and>
           (rowFull board symbol r \<or> colFull board symbol r)) =
         (\<exists>r. unat i \<le> r \<and> r < unat (bsize board) \<and>
           (rowFull board symbol r \<or> colFull board symbol r))"
        unfolding nxt using none by (metis Suc_leI le_neq_implies_less Suc_leD)
      finally show ?thesis .
    qed
  qed
qed

lemma isWin_lines:
  assumes "wellFormed board"
  shows "isWin board symbol =
    Inr ((\<forall>j < unat (bsize board). cells board ! (unat (bsize board) * j + j) = symbol) \<or>
         (\<forall>j < unat (bsize board).
            cells board ! (unat (bsize board) * (unat (bsize board) - 1 - j) + j) = symbol) \<or>
         (\<exists>r < unat (bsize board). rowFull board symbol r \<or> colFull board symbol r))"
  by (auto simp: isWin_def isWinForwardDiag_lines [OF assms] isWinBackwardDiag_lines [OF assms]
      isWin_loop_lines [OF assms])


lemma isValidMove_wellFormed:
  assumes "wellFormed board"
  shows "isValidMove board cell symbol =
    Inr (unat cell < cellCount board \<and> (symbol = EMPTY \<or> cells board ! unat cell = EMPTY))"
  using assms by (simp add: isValidMove_def readCell_def wellFormed_def)

lemma writeCell_wellFormed:
  assumes "writeCell board i symbol = Inr board'"
  shows "bsize board' = bsize board \<and> length (cells board') = length (cells board) \<and>
         cells board' = (cells board)[i := symbol] \<and> i < length (cells board)"
  using assms by (auto simp: writeCell_def split: if_splits)

lemma setCell_Inr:
  assumes "setCell board cell symbol = Inr board'"
  shows "board' = board\<lparr>cells := (cells board)[unat cell := symbol]\<rparr> \<and>
         unat cell < length (cells board) \<and> unat cell < cellCount board"
  using assms
  by (auto simp: setCell_def isValidMove_def writeCell_def split: if_splits sum.splits)

lemma setCell_wellFormed:
  assumes "wellFormed board" "unat cell < cellCount board"
    "symbol = NOUGHT \<or> symbol = CROSS \<or> symbol = EMPTY"
    "symbol = EMPTY \<or> cells board ! unat cell = EMPTY"
  shows "setCell board cell symbol = Inr (board\<lparr>cells := (cells board)[unat cell := symbol]\<rparr>)"
  using assms
  by (auto simp: setCell_def isValidMove_wellFormed writeCell_def wellFormed_def)

lemma cellCount_update [simp]: "cellCount (board\<lparr>cells := cs\<rparr>) = cellCount board"
  by (simp add: cellCount_def)

lemma uint8_incr_le: "unat ((c :: 8 word) + 1) \<le> Suc (unat c)"
  by (simp add: unat_word_ariths)

lemma isDraw_loop_result:
  assumes "wellFormed board" "\<forall>k < unat cell. cells board ! k \<noteq> EMPTY"
    "isDraw_loop fuel board cell = Some r"
  shows "r = Inr (EMPTY \<notin> set (cells board))"
  using assms
proof (induction fuel arbitrary: cell)
  case 0
  then show ?case by simp
next
  case (Suc fuel)
  show ?case
  proof (cases "unat cell < cellCount board")
    case False
    then have "\<forall>k < length (cells board). cells board ! k \<noteq> EMPTY"
      using Suc.prems(1,2) by (simp add: wellFormed_def)
    then have "EMPTY \<notin> set (cells board)"
      by (metis in_set_conv_nth)
    with False Suc.prems(3) show ?thesis by simp
  next
    case True
    then have inr: "unat cell < length (cells board)"
      using Suc.prems(1) by (simp add: wellFormed_def)
    show ?thesis
    proof (cases "cells board ! unat cell = EMPTY")
      case True
      then have "EMPTY \<in> set (cells board)"
        using inr by (metis nth_mem)
      with True \<open>unat cell < cellCount board\<close> inr Suc.prems(3) show ?thesis
        by (simp add: readCell_def)
    next
      case False
      have "\<forall>k < unat (cell + 1). cells board ! k \<noteq> EMPTY"
        using False Suc.prems(2) uint8_incr_le [of cell] by (metis less_Suc_eq less_le_trans)
      moreover have "isDraw_loop fuel board (cell + 1) = Some r"
        using False \<open>unat cell < cellCount board\<close> inr Suc.prems(3) by (simp add: readCell_def)
      ultimately show ?thesis
        using Suc.IH Suc.prems(1) by blast
    qed
  qed
qed

lemma isDraw_loop_returns:
  assumes "wellFormed board" "cellCount board \<le> 255" "unat cell \<le> cellCount board"
    "cellCount board - unat cell < fuel"
  shows "\<exists>d. isDraw_loop fuel board cell = Some (Inr d)"
  using assms
proof (induction fuel arbitrary: cell)
  case 0
  then show ?case by simp
next
  case (Suc fuel)
  show ?case
  proof (cases "unat cell < cellCount board")
    case False
    then show ?thesis by auto
  next
    case True
    then have inr: "unat cell < length (cells board)"
      using Suc.prems(1) by (simp add: wellFormed_def)
    have nxt: "unat (cell + 1) = Suc (unat cell)"
      using True Suc.prems(2) by (simp add: unat_word_ariths)
    have "\<exists>d. isDraw_loop fuel board (cell + 1) = Some (Inr d)"
      using Suc.IH [of "cell + 1"] Suc.prems True nxt by simp
    with True inr show ?thesis
      by (auto simp: readCell_def)
  qed
qed

lemma isWin_Inr:
  assumes "wellFormed board"
  shows "\<exists>w. isWin board symbol = Inr w"
  using isWin_lines [OF assms] by blast

lemma isDraw_result:
  assumes "wellFormed board" "isDraw fuel board = Some r"
  shows "r = Inr (isWin board NOUGHT = Inr False \<and> isWin board CROSS = Inr False \<and>
                  EMPTY \<notin> set (cells board))"
proof -
  obtain n c where n: "isWin board NOUGHT = Inr n" and c: "isWin board CROSS = Inr c"
    using isWin_Inr [OF assms(1)] by blast
  show ?thesis
  proof (cases "n \<or> c")
    case True
    with n c assms(2) show ?thesis by (auto simp: isDraw_def split: if_splits)
  next
    case False
    with n c assms(2) have "isDraw_loop fuel board 0 = Some r"
      by (simp add: isDraw_def)
    from isDraw_loop_result [OF assms(1) _ this] False n c show ?thesis by simp
  qed
qed

lemma isDraw_returns:
  assumes "wellFormed board" "cellCount board \<le> 255" "cellCount board < fuel"
  shows "\<exists>d. isDraw fuel board = Some (Inr d)"
proof -
  obtain n c where n: "isWin board NOUGHT = Inr n" and c: "isWin board CROSS = Inr c"
    using isWin_Inr [OF assms(1)] by blast
  have "\<exists>d. isDraw_loop fuel board 0 = Some (Inr d)"
    using isDraw_loop_returns [OF assms(1,2), of 0 fuel] assms(3) by simp
  with n c show ?thesis by (auto simp: isDraw_def)
qed

text \<open>
  What isDraw returns, and that it returns on a board of at most 255 cells; the full 3x3
  board without a winner is a draw.
\<close>

lemma isDraw_iff_when_it_returns:
  assumes "wellFormed board"
  shows "(\<forall>fuel r. isDraw fuel board = Some r \<longrightarrow>
            r = Inr (isWin board NOUGHT = Inr False \<and> isWin board CROSS = Inr False \<and>
                     EMPTY \<notin> set (cells board))) \<and>
         (cellCount board \<le> 255 \<longrightarrow> (\<exists>d. isDraw 256 board = Some (Inr d)))"
  using isDraw_result [OF assms] isDraw_returns [OF assms, of 256] by simp

lemma isDraw_boardDrawn:
  "wellFormed boardDrawn \<and> cellCount boardDrawn \<le> 255 \<and>
   isDraw 256 boardDrawn = Some (Inr True)"
proof -
  have wf: "wellFormed boardDrawn"
    by (simp add: wellFormed_def cellCount_def boardDrawn_def)
  have small: "cellCount boardDrawn \<le> 255"
    by (simp add: cellCount_def boardDrawn_def)
  have n: "isWin boardDrawn NOUGHT = Inr False" by code_simp
  have c: "isWin boardDrawn CROSS = Inr False" by code_simp
  have e: "EMPTY \<notin> set (cells boardDrawn)"
    by (simp add: boardDrawn_def EMPTY_def CROSS_def NOUGHT_def)
  from isDraw_iff_when_it_returns [OF wf] small
  obtain d where "isDraw 256 boardDrawn = Some (Inr d)"
    by blast
  moreover from this isDraw_iff_when_it_returns [OF wf] n c e have "d" by auto
  ultimately show ?thesis using wf small by simp
qed

lemma resetBoard_loop_diverges:
  assumes "256 \<le> cellCount board" "wellFormed board"
  shows "resetBoard_loop fuel board cell = None"
  using assms
proof (induction fuel arbitrary: board cell)
  case 0
  then show ?case by simp
next
  case (Suc fuel)
  have "unat cell < 256"
    using unsigned_less [of cell, where ?'a = nat] by simp
  then have lt: "unat cell < cellCount board" and inr: "unat cell < length (cells board)"
    using Suc.prems by (simp_all add: wellFormed_def)
  let ?b = "board\<lparr>cells := (cells board)[unat cell := EMPTY]\<rparr>"
  have "resetBoard_loop fuel ?b (cell + 1) = None"
    using Suc.prems by (intro Suc.IH) (simp_all add: wellFormed_def)
  with lt inr show ?case
    by (simp add: writeCell_def)
qed

lemma take_Suc_update:
  assumes "k < length xs"
  shows "take (Suc k) (xs[k := x]) = take k xs @ [x]"
  using assms by (simp add: take_Suc_conv_app_nth)

lemma resetBoard_loop_fills:
  assumes "wellFormed board" "cellCount board \<le> 255" "unat cell \<le> cellCount board"
    "cellCount board - unat cell < fuel"
  shows "resetBoard_loop fuel board cell =
    Some (Inr (board\<lparr>cells := take (unat cell) (cells board) @
                                   replicate (cellCount board - unat cell) EMPTY\<rparr>))"
  using assms
proof (induction fuel arbitrary: board cell)
  case 0
  then show ?case by simp
next
  case (Suc fuel)
  show ?case
  proof (cases "unat cell < cellCount board")
    case False
    then have "unat cell = length (cells board)"
      using Suc.prems(1,3) by (simp add: wellFormed_def)
    with False show ?thesis
      using Suc.prems(1) by (simp add: wellFormed_def)
  next
    case True
    then have inr: "unat cell < length (cells board)"
      using Suc.prems(1) by (simp add: wellFormed_def)
    have nxt: "unat (cell + 1) = Suc (unat cell)"
      using True Suc.prems(2) by (simp add: unat_word_ariths)
    let ?b = "board\<lparr>cells := (cells board)[unat cell := EMPTY]\<rparr>"
    have "resetBoard_loop fuel ?b (cell + 1) =
      Some (Inr (?b\<lparr>cells := take (unat (cell + 1)) (cells ?b) @
                                   replicate (cellCount ?b - unat (cell + 1)) EMPTY\<rparr>))"
      using Suc.prems True nxt by (intro Suc.IH) (simp_all add: wellFormed_def)
    also have "take (unat (cell + 1)) (cells ?b) @ replicate (cellCount ?b - unat (cell + 1)) EMPTY
       = take (unat cell) (cells board) @ replicate (cellCount board - unat cell) EMPTY"
      using True inr by (simp add: nxt take_Suc_update replicate_append_same Suc_diff_Suc
          flip: replicate_Suc)
    finally show ?thesis
      using True inr by (simp add: writeCell_def)
  qed
qed

lemma resetBoard_clears:
  assumes "wellFormed board" "cellCount board \<le> 255" "cellCount board < fuel"
  shows "resetBoard fuel board =
    Some (Inr (board\<lparr>cells := replicate (cellCount board) EMPTY\<rparr>))"
  using resetBoard_loop_fills [OF assms(1,2), of 0 fuel] assms(3)
  by (simp add: resetBoard_def)

text \<open>
  On the block that initBoard allocates, of \<open>size\<close> cells, the loop of resetBoard
  leaves the block after \<open>size\<close> writes, for every size from 2 on.
\<close>

lemma resetBoard_loop_overruns:
  assumes "length (cells board) = unat (bsize board)" "2 \<le> unat (bsize board)"
    "unat cell \<le> unat (bsize board)" "unat (bsize board) - unat cell < fuel"
  shows "resetBoard_loop fuel board cell = Some (Inl OutOfBounds)"
  using assms
proof (induction fuel arbitrary: board cell)
  case 0
  then show ?case by simp
next
  case (Suc fuel)
  let ?n = "unat (bsize board)"
  have "?n < 256"
    using unsigned_less [of "bsize board", where ?'a = nat] by simp
  have "?n < 2 * ?n"
    using Suc.prems(2) by simp
  also have "2 * ?n \<le> ?n * ?n"
    using Suc.prems(2) by (intro mult_le_mono1)
  finally have "unat cell < ?n * ?n"
    using Suc.prems(3) by (rule le_less_trans [rotated])
  then have inb: "unat cell < cellCount board"
    by (simp only: cellCount_def)
  show ?case
  proof (cases "unat cell < ?n")
    case False
    with inb Suc.prems(1) show ?thesis
      by (simp add: writeCell_def)
  next
    case True
    then have nxt: "unat (cell + 1) = Suc (unat cell)"
      using \<open>?n < 256\<close> by (simp add: unat_word_ariths)
    let ?b = "board\<lparr>cells := (cells board)[unat cell := EMPTY]\<rparr>"
    have "resetBoard_loop fuel ?b (cell + 1) = Some (Inl OutOfBounds)"
      using Suc.prems True nxt by (intro Suc.IH) simp_all
    with inb True Suc.prems(1) show ?thesis
      by (simp add: writeCell_def)
  qed
qed

lemma large_cellCount:
  assumes "16 \<le> unat (bsize board)"
  shows "256 \<le> cellCount board"
proof -
  have "16 * 16 \<le> unat (bsize board) * unat (bsize board)"
    using assms by (intro mult_le_mono)
  then show ?thesis by (simp add: cellCount_def)
qed

text \<open>On a full board of 256 cells or more the loop of isDraw never returns.\<close>

lemma isDraw_loop_diverges:
  assumes "wellFormed board" "256 \<le> cellCount board" "EMPTY \<notin> set (cells board)"
  shows "isDraw_loop fuel board cell = None"
proof (induction fuel arbitrary: cell)
  case 0
  show ?case by simp
next
  case (Suc fuel)
  have "unat cell < 256"
    using unsigned_less [of cell, where ?'a = nat] by simp
  then have inb: "unat cell < cellCount board" and inr: "unat cell < length (cells board)"
    using assms(1,2) by (simp_all add: wellFormed_def)
  then have "cells board ! unat cell \<in> set (cells board)"
    by simp
  with assms(3) have "cells board ! unat cell \<noteq> EMPTY"
    by metis
  with inb inr Suc.IH show ?case
    by (simp add: readCell_def)
qed

section \<open>Properties of the search\<close>

text \<open>
  On a well-formed board, with the two player symbols, no call of the search stops at an
  error before the final \<^verbatim>\<open>assert\<close>, and every call that returns hands the board back as
  it received it: each setCell of a symbol is undone by the setCell of EMPTY that follows
  the recursive call.
\<close>

lemma andThen_simps [simp]:
  "andThen None f = None"
  "andThen (Some (Inl e)) f = Some (Inl e)"
  "andThen (Some (Inr x)) f = f x"
  by (simp_all add: andThen_def)

lemma symbols_distinct [simp]:
  "NOUGHT \<noteq> EMPTY" "CROSS \<noteq> EMPTY" "NOUGHT \<noteq> CROSS"
  "EMPTY \<noteq> NOUGHT" "EMPTY \<noteq> CROSS" "CROSS \<noteq> NOUGHT"
  by (simp_all add: NOUGHT_def CROSS_def EMPTY_def)

lemma getSize_cellCount [simp]:
  "unat (getSize board) * unat (getSize board) = cellCount board"
  by (simp add: getSize_def cellCount_def)

lemma make_unmake:
  assumes "wellFormed board" "unat cell < cellCount board" "cells board ! unat cell = EMPTY"
    "symbol = NOUGHT \<or> symbol = CROSS"
  shows "\<exists>board1. setCell board cell symbol = Inr board1 \<and> wellFormed board1 \<and>
           cellCount board1 = cellCount board \<and> setCell board1 cell EMPTY = Inr board"
proof -
  let ?b1 = "board\<lparr>cells := (cells board)[unat cell := symbol]\<rparr>"
  have 1: "setCell board cell symbol = Inr ?b1"
    using assms by (intro setCell_wellFormed) auto
  have 2: "wellFormed ?b1"
    using assms(1) by (simp add: wellFormed_def)
  have "setCell ?b1 cell EMPTY = Inr (?b1\<lparr>cells := (cells ?b1)[unat cell := EMPTY]\<rparr>)"
    using 2 assms(2) by (intro setCell_wellFormed) auto
  also have "?b1\<lparr>cells := (cells ?b1)[unat cell := EMPTY]\<rparr> = board"
  proof -
    have "(cells board)[unat cell := EMPTY] = cells board"
      using assms(3) list_update_id [of "cells board" "unat cell"] by simp
    then show ?thesis by simp
  qed
  finally show ?thesis
    using 1 2 by auto
qed

lemma search_restores:
  "(\<forall>board symbolSelf symbolOther depth alpha beta r.
      wellFormed board \<longrightarrow> (symbolSelf = NOUGHT \<or> symbolSelf = CROSS) \<longrightarrow>
      (symbolOther = NOUGHT \<or> symbolOther = CROSS) \<longrightarrow>
      minimise fuel board symbolSelf symbolOther depth alpha beta = Some r \<longrightarrow>
      (\<exists>s. r = Inr (board, s))) \<and>
   (\<forall>board symbolSelf symbolOther depth alpha beta cell r.
      wellFormed board \<longrightarrow> (symbolSelf = NOUGHT \<or> symbolSelf = CROSS) \<longrightarrow>
      (symbolOther = NOUGHT \<or> symbolOther = CROSS) \<longrightarrow>
      minimise_loop fuel board symbolSelf symbolOther depth alpha beta cell = Some r \<longrightarrow>
      (\<exists>s. r = Inr (board, s))) \<and>
   (\<forall>board symbolSelf symbolOther depth alpha beta r.
      wellFormed board \<longrightarrow> (symbolSelf = NOUGHT \<or> symbolSelf = CROSS) \<longrightarrow>
      (symbolOther = NOUGHT \<or> symbolOther = CROSS) \<longrightarrow>
      maximise fuel board symbolSelf symbolOther depth alpha beta = Some r \<longrightarrow>
      (\<exists>s. r = Inr (board, s))) \<and>
   (\<forall>board symbolSelf symbolOther depth alpha beta cell r.
      wellFormed board \<longrightarrow> (symbolSelf = NOUGHT \<or> symbolSelf = CROSS) \<longrightarrow>
      (symbolOther = NOUGHT \<or> symbolOther = CROSS) \<longrightarrow>
      maximise_loop fuel board symbolSelf symbolOther depth alpha beta cell = Some r \<longrightarrow>
      (\<exists>s. r = Inr (board, s)))"
proof (induction fuel)
  case 0
  show ?case by simp
next
  case (Suc fuel)
  note IH_minimise = Suc.IH [THEN conjunct1, rule_format]
  note IH_minimise_loop = Suc.IH [THEN conjunct2, THEN conjunct1, rule_format]
  note IH_maximise = Suc.IH [THEN conjunct2, THEN conjunct2, THEN conjunct1, rule_format]
  note IH_maximise_loop = Suc.IH [THEN conjunct2, THEN conjunct2, THEN conjunct2, rule_format]
  have minimise_part: "\<exists>s. r = Inr (board, s)"
    if wf: "wellFormed board" and self: "symbolSelf = NOUGHT \<or> symbolSelf = CROSS"
      and other: "symbolOther = NOUGHT \<or> symbolOther = CROSS"
      and run: "minimise (Suc fuel) board symbolSelf symbolOther depth alpha beta = Some r"
    for board symbolSelf symbolOther depth alpha beta r
  proof -
    obtain over where over: "isWin board symbolOther = Inr over"
      using isWin_Inr [OF wf] by blast
    show ?thesis
    proof (cases over)
      case True
      with over run show ?thesis by auto
    next
      case False
      show ?thesis
      proof (cases "isDraw fuel board")
        case None
        with over False run show ?thesis by simp
      next
        case (Some x)
        then obtain draw where draw: "isDraw fuel board = Some (Inr draw)"
          using isDraw_result [OF wf] by blast
        show ?thesis
        proof (cases draw)
          case True
          with over False draw run show ?thesis by auto
        next
          case nd: False
          with over False draw run
          have "minimise_loop fuel board symbolSelf symbolOther depth alpha beta 0 = Some r"
            by simp
          then show ?thesis by (rule IH_minimise_loop [OF wf self other])
        qed
      qed
    qed
  qed
  have minimise_loop_part: "\<exists>s. r = Inr (board, s)"
    if wf: "wellFormed board" and self: "symbolSelf = NOUGHT \<or> symbolSelf = CROSS"
      and other: "symbolOther = NOUGHT \<or> symbolOther = CROSS"
      and run: "minimise_loop (Suc fuel) board symbolSelf symbolOther depth alpha beta cell = Some r"
    for board symbolSelf symbolOther depth alpha beta cell r
  proof (cases "unat cell < cellCount board")
    case False
    with run show ?thesis by auto
  next
    case inb: True
    show ?thesis
    proof (cases "cells board ! unat cell = EMPTY")
      case False
      with inb other have "isValidMove board cell symbolOther = Inr False"
        using isValidMove_wellFormed [OF wf] by auto
      with inb run
      have "minimise_loop fuel board symbolSelf symbolOther depth alpha beta (cell + 1) = Some r"
        by simp
      then show ?thesis by (rule IH_minimise_loop [OF wf self other])
    next
      case empty: True
      then have valid: "isValidMove board cell symbolOther = Inr True"
        using inb isValidMove_wellFormed [OF wf] by simp
      obtain board1 where b1: "setCell board cell symbolOther = Inr board1"
        "wellFormed board1" "setCell board1 cell EMPTY = Inr board"
        using make_unmake [OF wf inb empty other] by blast
      show ?thesis
      proof (cases "maximise fuel board1 symbolSelf symbolOther (depth + 1) alpha beta")
        case None
        with inb valid b1 run show ?thesis by simp
      next
        case (Some x)
        then obtain score where x: "x = Inr (board1, score)"
          using IH_maximise [OF b1(2) self other] by blast
        show ?thesis
        proof (cases "min_int8 beta score \<le> alpha")
          case True
          with inb valid b1 Some x run show ?thesis by auto
        next
          case False
          with inb valid b1 Some x run
          have "minimise_loop fuel board symbolSelf symbolOther depth alpha (min_int8 beta score) (cell + 1) = Some r"
            by simp
          then show ?thesis by (rule IH_minimise_loop [OF wf self other])
        qed
      qed
    qed
  qed
  have maximise_part: "\<exists>s. r = Inr (board, s)"
    if wf: "wellFormed board" and self: "symbolSelf = NOUGHT \<or> symbolSelf = CROSS"
      and other: "symbolOther = NOUGHT \<or> symbolOther = CROSS"
      and run: "maximise (Suc fuel) board symbolSelf symbolOther depth alpha beta = Some r"
    for board symbolSelf symbolOther depth alpha beta r
  proof -
    obtain over where over: "isWin board symbolSelf = Inr over"
      using isWin_Inr [OF wf] by blast
    show ?thesis
    proof (cases over)
      case True
      with over run show ?thesis by auto
    next
      case False
      show ?thesis
      proof (cases "isDraw fuel board")
        case None
        with over False run show ?thesis by simp
      next
        case (Some x)
        then obtain draw where draw: "isDraw fuel board = Some (Inr draw)"
          using isDraw_result [OF wf] by blast
        show ?thesis
        proof (cases draw)
          case True
          with over False draw run show ?thesis by auto
        next
          case nd: False
          with over False draw run
          have "maximise_loop fuel board symbolSelf symbolOther depth alpha beta 0 = Some r"
            by simp
          then show ?thesis by (rule IH_maximise_loop [OF wf self other])
        qed
      qed
    qed
  qed
  have maximise_loop_part: "\<exists>s. r = Inr (board, s)"
    if wf: "wellFormed board" and self: "symbolSelf = NOUGHT \<or> symbolSelf = CROSS"
      and other: "symbolOther = NOUGHT \<or> symbolOther = CROSS"
      and run: "maximise_loop (Suc fuel) board symbolSelf symbolOther depth alpha beta cell = Some r"
    for board symbolSelf symbolOther depth alpha beta cell r
  proof (cases "unat cell < cellCount board")
    case False
    with run show ?thesis by auto
  next
    case inb: True
    show ?thesis
    proof (cases "cells board ! unat cell = EMPTY")
      case False
      with inb self have "isValidMove board cell symbolSelf = Inr False"
        using isValidMove_wellFormed [OF wf] by auto
      with inb run
      have "maximise_loop fuel board symbolSelf symbolOther depth alpha beta (cell + 1) = Some r"
        by simp
      then show ?thesis by (rule IH_maximise_loop [OF wf self other])
    next
      case empty: True
      then have valid: "isValidMove board cell symbolSelf = Inr True"
        using inb isValidMove_wellFormed [OF wf] by simp
      obtain board1 where b1: "setCell board cell symbolSelf = Inr board1"
        "wellFormed board1" "setCell board1 cell EMPTY = Inr board"
        using make_unmake [OF wf inb empty self] by blast
      show ?thesis
      proof (cases "minimise fuel board1 symbolSelf symbolOther (depth + 1) alpha beta")
        case None
        with inb valid b1 run show ?thesis by simp
      next
        case (Some x)
        then obtain score where x: "x = Inr (board1, score)"
          using IH_minimise [OF b1(2) self other] by blast
        show ?thesis
        proof (cases "max_int8 alpha score \<ge> beta")
          case True
          with inb valid b1 Some x run show ?thesis by auto
        next
          case False
          with inb valid b1 Some x run
          have "maximise_loop fuel board symbolSelf symbolOther depth (max_int8 alpha score) beta (cell + 1) = Some r"
            by simp
          then show ?thesis by (rule IH_maximise_loop [OF wf self other])
        qed
      qed
    qed
  qed
  show ?case
  proof (intro conjI allI impI)
    fix board symbolSelf symbolOther depth alpha beta r
    assume "wellFormed board" "symbolSelf = NOUGHT \<or> symbolSelf = CROSS"
      "symbolOther = NOUGHT \<or> symbolOther = CROSS"
      "minimise (Suc fuel) board symbolSelf symbolOther depth alpha beta = Some r"
    then show "\<exists>s. r = Inr (board, s)" by (rule minimise_part)
  next
    fix board symbolSelf symbolOther depth alpha beta cell r
    assume "wellFormed board" "symbolSelf = NOUGHT \<or> symbolSelf = CROSS"
      "symbolOther = NOUGHT \<or> symbolOther = CROSS"
      "minimise_loop (Suc fuel) board symbolSelf symbolOther depth alpha beta cell = Some r"
    then show "\<exists>s. r = Inr (board, s)" by (rule minimise_loop_part)
  next
    fix board symbolSelf symbolOther depth alpha beta r
    assume "wellFormed board" "symbolSelf = NOUGHT \<or> symbolSelf = CROSS"
      "symbolOther = NOUGHT \<or> symbolOther = CROSS"
      "maximise (Suc fuel) board symbolSelf symbolOther depth alpha beta = Some r"
    then show "\<exists>s. r = Inr (board, s)" by (rule maximise_part)
  next
    fix board symbolSelf symbolOther depth alpha beta cell r
    assume "wellFormed board" "symbolSelf = NOUGHT \<or> symbolSelf = CROSS"
      "symbolOther = NOUGHT \<or> symbolOther = CROSS"
      "maximise_loop (Suc fuel) board symbolSelf symbolOther depth alpha beta cell = Some r"
    then show "\<exists>s. r = Inr (board, s)" by (rule maximise_loop_part)
  qed
qed

lemmas minimise_restores = search_restores [THEN conjunct1, rule_format]

lemma getBestMove_loop_restores:
  assumes "wellFormed board" "symbolSelf = NOUGHT \<or> symbolSelf = CROSS"
    "symbolOther = NOUGHT \<or> symbolOther = CROSS"
    "getBestMove_loop fuel board symbolSelf symbolOther alpha beta bestMove cell = Some r"
  shows "\<exists>alpha' bestMove'. r = Inr (board, alpha', bestMove') \<and> alpha \<le> alpha' \<and>
           (alpha' = alpha \<longrightarrow> bestMove' = bestMove) \<and>
           (alpha < alpha' \<longrightarrow> (\<exists>c. bestMove' = Some c \<and> unat c < cellCount board \<and>
                                      cells board ! unat c = EMPTY))"
  using assms(4)
proof (induction fuel arbitrary: alpha bestMove cell)
  case 0
  then show ?case by simp
next
  case (Suc fuel)
  note wf = assms(1) and self = assms(2) and other = assms(3)
  note run = Suc.prems
  show ?case
  proof (cases "unat cell < cellCount board")
    case False
    with run show ?thesis by auto
  next
    case inb: True
    show ?thesis
    proof (cases "cells board ! unat cell = EMPTY")
      case False
      with inb self have "isValidMove board cell symbolSelf = Inr False"
        using isValidMove_wellFormed [OF wf] by auto
      with inb run
      have "getBestMove_loop fuel board symbolSelf symbolOther alpha beta bestMove (cell + 1)
            = Some r"
        by simp
      then show ?thesis by (rule Suc.IH)
    next
      case empty: True
      then have valid: "isValidMove board cell symbolSelf = Inr True"
        using inb isValidMove_wellFormed [OF wf] by simp
      obtain board1 where b1: "setCell board cell symbolSelf = Inr board1"
        "wellFormed board1" "setCell board1 cell EMPTY = Inr board"
        using make_unmake [OF wf inb empty self] by blast
      show ?thesis
      proof (cases "minimise fuel board1 symbolSelf symbolOther 1 alpha beta")
        case None
        with inb valid b1 run show ?thesis by simp
      next
        case (Some x)
        then obtain score where x: "x = Inr (board1, score)"
          using minimise_restores [OF b1(2) self other] by blast
        show ?thesis
        proof (cases "score > alpha")
          case True
          with inb valid b1 Some x run
          have "getBestMove_loop fuel board symbolSelf symbolOther score beta (Some cell)
                  (cell + 1) = Some r"
            by simp
          from Suc.IH [OF this] True inb empty show ?thesis
            by (elim exE conjE) (rule exI, rule exI, auto)
        next
          case False
          with inb valid b1 Some x run
          have "getBestMove_loop fuel board symbolSelf symbolOther alpha beta bestMove
                  (cell + 1) = Some r"
            by simp
          then show ?thesis by (rule Suc.IH)
        qed
      qed
    qed
  qed
qed

lemma getBestMove_restores:
  assumes "wellFormed board" "symbolSelf = NOUGHT \<or> symbolSelf = CROSS"
    "getBestMove fuel board symbolSelf = Some r"
  shows "r = Inl AssertionFailed \<or>
         (\<exists>cell. r = Inr (board, cell) \<and> isValidMove board cell symbolSelf = Inr True)"
proof -
  let ?other = "if symbolSelf = NOUGHT then CROSS else NOUGHT"
  have other: "?other = NOUGHT \<or> ?other = CROSS" by simp
  from assms(3) obtain x where
    x: "getBestMove_loop fuel board symbolSelf ?other (int8 SCORE_LOSE) (int8 SCORE_WIN) None 0
        = Some x"
    by (cases "getBestMove_loop fuel board symbolSelf ?other (int8 SCORE_LOSE) (int8 SCORE_WIN)
                 None 0") (simp_all add: getBestMove_def)
  from getBestMove_loop_restores [OF assms(1,2) other x]
  obtain alpha' bestMove' where r: "x = Inr (board, alpha', bestMove')"
    and le: "int8 SCORE_LOSE \<le> alpha'"
    and gt: "int8 SCORE_LOSE < alpha' \<longrightarrow> (\<exists>c. bestMove' = Some c \<and> unat c < cellCount board \<and>
                                      cells board ! unat c = EMPTY)"
    by blast
  have lose: "int8 SCORE_LOSE = SCORE_LOSE"
    by (simp add: int8_def SCORE_LOSE_def)
  show ?thesis
  proof (cases "alpha' = SCORE_LOSE")
    case True
    with x r assms(3) show ?thesis by (simp add: getBestMove_def)
  next
    case False
    with le lose gt obtain c where c: "bestMove' = Some c" "unat c < cellCount board"
      "cells board ! unat c = EMPTY"
      by auto
    then have "isValidMove board c symbolSelf = Inr True"
      using isValidMove_wellFormed [OF assms(1)] by simp
    with False x r c assms(3) show ?thesis by (auto simp: getBestMove_def)
  qed
qed

text \<open>
  Termination. On a well-formed board with at most 255 cells the loops over the cells end,
  and each recursive call works on a board with one empty cell less, so
  \<open>(emptyCells board + 1) * (cellCount board + 2)\<close> units of fuel are enough.
\<close>

lemma filter_update_empty:
  assumes "i < length xs" "xs ! i = EMPTY" "s \<noteq> EMPTY"
  shows "Suc (length (filter (\<lambda>c. c = EMPTY) (xs[i := s]))) =
         length (filter (\<lambda>c. c = EMPTY) xs)"
  using assms
proof (induction xs arbitrary: i)
  case Nil
  then show ?case by simp
next
  case (Cons x xs)
  then show ?case by (cases i) auto
qed

lemma make_move_emptyCells:
  assumes "wellFormed board" "unat cell < cellCount board" "cells board ! unat cell = EMPTY"
    "symbol = NOUGHT \<or> symbol = CROSS" "setCell board cell symbol = Inr board1"
  shows "Suc (emptyCells board1) = emptyCells board"
proof -
  have "board1 = board\<lparr>cells := (cells board)[unat cell := symbol]\<rparr>"
    using setCell_Inr [OF assms(5)] by simp
  moreover have "symbol \<noteq> EMPTY" using assms(4) by auto
  ultimately show ?thesis
    using assms(1-3) filter_update_empty [of "unat cell" "cells board" symbol]
    by (simp add: emptyCells_def wellFormed_def)
qed

lemma search_returns:
  "\<forall>board. wellFormed board \<longrightarrow> cellCount board \<le> 255 \<longrightarrow> emptyCells board \<le> e \<longrightarrow>
     (\<forall>fuel symbolSelf symbolOther depth alpha beta.
        (e + 1) * (cellCount board + 2) \<le> fuel \<longrightarrow>
        (symbolSelf = NOUGHT \<or> symbolSelf = CROSS) \<longrightarrow>
        (symbolOther = NOUGHT \<or> symbolOther = CROSS) \<longrightarrow>
        (\<exists>s. minimise fuel board symbolSelf symbolOther depth alpha beta = Some (Inr (board, s))) \<and>
        (\<exists>s. maximise fuel board symbolSelf symbolOther depth alpha beta = Some (Inr (board, s))))"
proof (induction e rule: less_induct)
  case (less e)
  show ?case
  proof (intro allI impI)
    fix board fuel symbolSelf symbolOther depth alpha beta
    assume wf: "wellFormed board" and small: "cellCount board \<le> 255"
      and few: "emptyCells board \<le> e"
      and fuel: "(e + 1) * (cellCount board + 2) \<le> fuel"
      and self: "symbolSelf = NOUGHT \<or> symbolSelf = CROSS"
      and other: "symbolOther = NOUGHT \<or> symbolOther = CROSS"
    let ?n = "cellCount board"
    have child: "(\<exists>s. minimise f board1 symbolSelf symbolOther d a b = Some (Inr (board1, s))) \<and>
                 (\<exists>s. maximise f board1 symbolSelf symbolOther d a b = Some (Inr (board1, s)))"
      if "wellFormed board1" "cellCount board1 = ?n" "Suc (emptyCells board1) = emptyCells board"
        "e * (?n + 2) \<le> f" for board1 f d a b
    proof -
      from that(3) few obtain e' where e': "e = Suc e'" "emptyCells board1 \<le> e'"
        by (cases e) simp_all
      then have "e' < e" by simp
      from less.IH [OF this, rule_format, OF that(1) _ e'(2) _ self other, of f d a b]
      show ?thesis
        using that(2,4) small e'(1) by simp
    qed
    note child_min = child [THEN conjunct1]
    note child_max = child [THEN conjunct2]
    have minimise_loop: "\<exists>s. minimise_loop f board symbolSelf symbolOther depth a b cell
                        = Some (Inr (board, s))"
      if "unat cell \<le> ?n" "(?n - unat cell) + 1 + e * (?n + 2) \<le> f" for f a b cell
      using that
    proof (induction f arbitrary: a b cell)
      case 0
      then show ?case by simp
    next
      case (Suc f)
      show ?case
      proof (cases "unat cell < ?n")
        case False
        then show ?thesis by simp
      next
        case inb: True
        have nxt: "unat (cell + 1) = Suc (unat cell)"
          using inb small by (simp add: unat_word_ariths)
        have bound: "unat (cell + 1) \<le> ?n" "(?n - unat (cell + 1)) + 1 + e * (?n + 2) \<le> f"
          using inb Suc.prems nxt by simp_all
        show ?thesis
        proof (cases "cells board ! unat cell = EMPTY")
          case False
          with inb other have "isValidMove board cell symbolOther = Inr False"
            using isValidMove_wellFormed [OF wf] by auto
          with inb Suc.IH [OF bound] show ?thesis by simp
        next
          case empty: True
          then have valid: "isValidMove board cell symbolOther = Inr True"
            using inb isValidMove_wellFormed [OF wf] by simp
          obtain board1 where b1: "setCell board cell symbolOther = Inr board1"
            "wellFormed board1" "cellCount board1 = ?n" "setCell board1 cell EMPTY = Inr board"
            using make_unmake [OF wf inb empty other] by blast
          have fewer: "Suc (emptyCells board1) = emptyCells board"
            using make_move_emptyCells [OF wf inb empty other b1(1)] .
          have "e * (?n + 2) \<le> f"
            using Suc.prems(2) inb by simp
          from child_max [OF b1(2,3) fewer this]
          obtain score where score:
            "maximise f board1 symbolSelf symbolOther (depth + 1) a b = Some (Inr (board1, score))"
            by blast
          show ?thesis
          proof (cases "min_int8 b score \<le> a")
            case True
            with inb valid b1 score show ?thesis by simp
          next
            case False
            with inb valid b1 score Suc.IH [OF bound, of a "min_int8 b score"] show ?thesis by simp
          qed
        qed
      qed
    qed
    have maximise_loop: "\<exists>s. maximise_loop f board symbolSelf symbolOther depth a b cell
                        = Some (Inr (board, s))"
      if "unat cell \<le> ?n" "(?n - unat cell) + 1 + e * (?n + 2) \<le> f" for f a b cell
      using that
    proof (induction f arbitrary: a b cell)
      case 0
      then show ?case by simp
    next
      case (Suc f)
      show ?case
      proof (cases "unat cell < ?n")
        case False
        then show ?thesis by simp
      next
        case inb: True
        have nxt: "unat (cell + 1) = Suc (unat cell)"
          using inb small by (simp add: unat_word_ariths)
        have bound: "unat (cell + 1) \<le> ?n" "(?n - unat (cell + 1)) + 1 + e * (?n + 2) \<le> f"
          using inb Suc.prems nxt by simp_all
        show ?thesis
        proof (cases "cells board ! unat cell = EMPTY")
          case False
          with inb self have "isValidMove board cell symbolSelf = Inr False"
            using isValidMove_wellFormed [OF wf] by auto
          with inb Suc.IH [OF bound] show ?thesis by simp
        next
          case empty: True
          then have valid: "isValidMove board cell symbolSelf = Inr True"
            using inb isValidMove_wellFormed [OF wf] by simp
          obtain board1 where b1: "setCell board cell symbolSelf = Inr board1"
            "wellFormed board1" "cellCount board1 = ?n" "setCell board1 cell EMPTY = Inr board"
            using make_unmake [OF wf inb empty self] by blast
          have fewer: "Suc (emptyCells board1) = emptyCells board"
            using make_move_emptyCells [OF wf inb empty self b1(1)] .
          have "e * (?n + 2) \<le> f"
            using Suc.prems(2) inb by simp
          from child_min [OF b1(2,3) fewer this]
          obtain score where score:
            "minimise f board1 symbolSelf symbolOther (depth + 1) a b = Some (Inr (board1, score))"
            by blast
          show ?thesis
          proof (cases "max_int8 a score \<ge> b")
            case True
            with inb valid b1 score show ?thesis by simp
          next
            case False
            with inb valid b1 score Suc.IH [OF bound, of "max_int8 a score" b] show ?thesis by simp
          qed
        qed
      qed
    qed
    have minimise_call: "\<exists>s. minimise fuel board symbolSelf symbolOther depth alpha beta
                        = Some (Inr (board, s))"
    proof -
      obtain f where f: "fuel = Suc f"
        using fuel by (cases fuel) simp_all
      have enough: "?n < f" "(?n - unat (0 :: 8 word)) + 1 + e * (?n + 2) \<le> f" "unat (0 :: 8 word) \<le> ?n"
        using fuel f by simp_all
      obtain over where over: "isWin board symbolOther = Inr over"
        using isWin_Inr [OF wf] by blast
      obtain draw where draw: "isDraw f board = Some (Inr draw)"
        using isDraw_returns [OF wf small enough(1)] by blast
      from minimise_loop [OF enough(3,2)] over draw f show ?thesis
        by (cases over; cases draw) simp_all
    qed
    have maximise_call: "\<exists>s. maximise fuel board symbolSelf symbolOther depth alpha beta
                        = Some (Inr (board, s))"
    proof -
      obtain f where f: "fuel = Suc f"
        using fuel by (cases fuel) simp_all
      have enough: "?n < f" "(?n - unat (0 :: 8 word)) + 1 + e * (?n + 2) \<le> f" "unat (0 :: 8 word) \<le> ?n"
        using fuel f by simp_all
      obtain over where over: "isWin board symbolSelf = Inr over"
        using isWin_Inr [OF wf] by blast
      obtain draw where draw: "isDraw f board = Some (Inr draw)"
        using isDraw_returns [OF wf small enough(1)] by blast
      from maximise_loop [OF enough(3,2)] over draw f show ?thesis
        by (cases over; cases draw) simp_all
    qed
    from minimise_call maximise_call
    show "(\<exists>s. minimise fuel board symbolSelf symbolOther depth alpha beta = Some (Inr (board, s))) \<and>
          (\<exists>s. maximise fuel board symbolSelf symbolOther depth alpha beta = Some (Inr (board, s)))"
      by (rule conjI)
  qed
qed

lemmas minimise_returns = search_returns [rule_format, THEN conjunct1]

lemma getBestMove_loop_returns:
  assumes wf: "wellFormed board" and small: "cellCount board \<le> 255"
    and self: "symbolSelf = NOUGHT \<or> symbolSelf = CROSS"
    and other: "symbolOther = NOUGHT \<or> symbolOther = CROSS"
    and "unat cell \<le> cellCount board"
    and "(cellCount board - unat cell) + 1 + emptyCells board * (cellCount board + 2) \<le> fuel"
  shows "\<exists>r. getBestMove_loop fuel board symbolSelf symbolOther alpha beta bestMove cell = Some r"
  using assms(5,6)
proof (induction fuel arbitrary: alpha bestMove cell)
  case 0
  then show ?case by simp
next
  case (Suc fuel)
  let ?n = "cellCount board"
  show ?case
  proof (cases "unat cell < ?n")
    case False
    then show ?thesis by simp
  next
    case inb: True
    have nxt: "unat (cell + 1) = Suc (unat cell)"
      using inb small by (simp add: unat_word_ariths)
    have bound: "unat (cell + 1) \<le> ?n"
      "(?n - unat (cell + 1)) + 1 + emptyCells board * (?n + 2) \<le> fuel"
      using inb Suc.prems nxt by simp_all
    show ?thesis
    proof (cases "cells board ! unat cell = EMPTY")
      case False
      with inb self have "isValidMove board cell symbolSelf = Inr False"
        using isValidMove_wellFormed [OF wf] by auto
      with inb Suc.IH [OF bound] show ?thesis by simp
    next
      case empty: True
      then have valid: "isValidMove board cell symbolSelf = Inr True"
        using inb isValidMove_wellFormed [OF wf] by simp
      obtain board1 where b1: "setCell board cell symbolSelf = Inr board1"
        "wellFormed board1" "cellCount board1 = ?n" "setCell board1 cell EMPTY = Inr board"
        using make_unmake [OF wf inb empty self] by blast
      have fewer: "Suc (emptyCells board1) = emptyCells board"
        using make_move_emptyCells [OF wf inb empty self b1(1)] .
      have "(emptyCells board1 + 1) * (cellCount board1 + 2) \<le> fuel"
        using Suc.prems(2) inb fewer b1(3) by simp
      from minimise_returns [OF b1(2) _ _ this self other, of 1 alpha beta] small b1(3)
      obtain score where score:
        "minimise fuel board1 symbolSelf symbolOther 1 alpha beta = Some (Inr (board1, score))"
        by auto
      show ?thesis
      proof (cases "score > alpha")
        case True
        with inb valid b1 score Suc.IH [OF bound, of score "Some cell"] show ?thesis by simp
      next
        case False
        with inb valid b1 score Suc.IH [OF bound, of alpha bestMove] show ?thesis by simp
      qed
    qed
  qed
qed

lemma getBestMove_returns:
  assumes "wellFormed board" "cellCount board \<le> 255"
    "symbolSelf = NOUGHT \<or> symbolSelf = CROSS"
    "(emptyCells board + 1) * (cellCount board + 2) \<le> fuel"
  shows "\<exists>r. getBestMove fuel board symbolSelf = Some r"
proof -
  let ?other = "if symbolSelf = NOUGHT then CROSS else NOUGHT"
  have other: "?other = NOUGHT \<or> ?other = CROSS" by simp
  have "(cellCount board - unat (0 :: 8 word)) + 1 + emptyCells board * (cellCount board + 2)
        \<le> fuel"
    using assms(4) by simp
  from getBestMove_loop_returns [OF assms(1-3) other _ this, of "int8 SCORE_LOSE"
      "int8 SCORE_WIN" None]
  obtain x where
    x: "getBestMove_loop fuel board symbolSelf ?other (int8 SCORE_LOSE) (int8 SCORE_WIN) None 0
        = Some x"
    by auto
  from getBestMove_loop_restores [OF assms(1,3) other x]
  obtain alpha' bestMove' where "x = Inr (board, alpha', bestMove')"
    by blast
  with x show ?thesis
    by (cases bestMove') (simp_all add: getBestMove_def)
qed

text \<open>
  The scores of the end states that each step tests: maximise scores a win of self,
  minimise a win of the opponent, both a draw. The sums stay within \<^verbatim>\<open>int8_t\<close> for
  every depth.
\<close>

lemma int8_in_range: "- 128 \<le> x \<Longrightarrow> x \<le> 127 \<Longrightarrow> int8 x = x"
  by (simp add: int8_def)

lemma uint8_depth_range: "0 \<le> int (unat (depth :: 8 word)) \<and> int (unat depth) \<le> 255"
  using unsigned_less [of depth, where ?'a = int] by simp

lemma maximise_scores_win_of_self:
  assumes "isWin board symbolSelf = Inr True"
  shows "maximise (Suc fuel) board symbolSelf symbolOther depth alpha beta =
         Some (Inr (board, SCORE_WIN - int (unat depth)))"
  using assms uint8_depth_range [of depth] by (simp add: int8_in_range SCORE_WIN_def)

lemma minimise_scores_win_of_opponent:
  assumes "isWin board symbolOther = Inr True"
  shows "minimise (Suc fuel) board symbolSelf symbolOther depth alpha beta =
         Some (Inr (board, SCORE_LOSE + int (unat depth)))"
  using assms uint8_depth_range [of depth] by (simp add: int8_in_range SCORE_LOSE_def)

lemma maximise_scores_draw:
  assumes "isWin board symbolSelf = Inr False" "isDraw fuel board = Some (Inr True)"
  shows "maximise (Suc fuel) board symbolSelf symbolOther depth alpha beta =
         Some (Inr (board, SCORE_DRAW))"
  using assms by (simp add: int8_in_range SCORE_DRAW_def)

lemma minimise_scores_draw:
  assumes "isWin board symbolOther = Inr False" "isDraw fuel board = Some (Inr True)"
  shows "minimise (Suc fuel) board symbolSelf symbolOther depth alpha beta =
         Some (Inr (board, SCORE_DRAW))"
  using assms by (simp add: int8_in_range SCORE_DRAW_def)

text \<open>
  From size 16 on the loop of getBestMove never leaves the cells: its counter stays
  below 256.
\<close>

lemma getBestMove_loop_diverges:
  assumes "wellFormed board" "256 \<le> cellCount board"
    "symbolSelf = NOUGHT \<or> symbolSelf = CROSS" "symbolOther = NOUGHT \<or> symbolOther = CROSS"
  shows "getBestMove_loop fuel board symbolSelf symbolOther alpha beta bestMove cell = None"
proof (induction fuel arbitrary: alpha bestMove cell)
  case 0
  show ?case by simp
next
  case (Suc fuel)
  note wf = assms(1) and self = assms(3) and other = assms(4)
  have "unat cell < 256"
    using unsigned_less [of cell, where ?'a = nat] by simp
  then have inb: "unat cell < cellCount board"
    using assms(2) by simp
  show ?case
  proof (cases "cells board ! unat cell = EMPTY")
    case False
    with inb self have "isValidMove board cell symbolSelf = Inr False"
      using isValidMove_wellFormed [OF wf] by auto
    with inb Suc.IH show ?thesis by simp
  next
    case empty: True
    then have valid: "isValidMove board cell symbolSelf = Inr True"
      using inb isValidMove_wellFormed [OF wf] by simp
    obtain board1 where b1: "setCell board cell symbolSelf = Inr board1"
      "wellFormed board1" "setCell board1 cell EMPTY = Inr board"
      using make_unmake [OF wf inb empty self] by blast
    show ?thesis
    proof (cases "minimise fuel board1 symbolSelf symbolOther 1 alpha beta")
      case None
      with inb valid b1 show ?thesis by simp
    next
      case (Some x)
      then obtain score where x: "x = Inr (board1, score)"
        using minimise_restores [OF b1(2) self other] by blast
      with inb valid b1 Some Suc.IH show ?thesis by simp
    qed
  qed
qed

lemma getBestMove_diverges:
  assumes "wellFormed board" "256 \<le> cellCount board"
    "symbolSelf = NOUGHT \<or> symbolSelf = CROSS"
  shows "getBestMove fuel board symbolSelf = None"
proof -
  let ?other = "if symbolSelf = NOUGHT then CROSS else NOUGHT"
  have other: "?other = NOUGHT \<or> ?other = CROSS" by simp
  show ?thesis
    using getBestMove_loop_diverges [OF assms(1,2,3) other] by (simp add: getBestMove_def)
qed

text \<open>On a full board the loops of both steps find no valid move and return the bound.\<close>

lemma loops_on_full_board:
  assumes "wellFormed board" "cellCount board \<le> 255" "EMPTY \<notin> set (cells board)"
    "symbolSelf \<noteq> EMPTY" "symbolOther \<noteq> EMPTY"
    "unat cell \<le> cellCount board" "cellCount board - unat cell < fuel"
  shows "minimise_loop fuel board symbolSelf symbolOther depth alpha beta cell
           = Some (Inr (board, beta)) \<and>
         maximise_loop fuel board symbolSelf symbolOther depth alpha beta cell
           = Some (Inr (board, alpha))"
  using assms(6,7)
proof (induction fuel arbitrary: cell)
  case 0
  then show ?case by simp
next
  case (Suc fuel)
  show ?case
  proof (cases "unat cell < cellCount board")
    case False
    then show ?thesis by simp
  next
    case True
    then have "cells board ! unat cell \<in> set (cells board)"
      using assms(1) by (simp add: wellFormed_def)
    with assms(3) have occupied: "cells board ! unat cell \<noteq> EMPTY"
      by metis
    have invalid: "isValidMove board cell symbolSelf = Inr False"
      "isValidMove board cell symbolOther = Inr False"
      using True occupied assms(4,5) isValidMove_wellFormed [OF assms(1)] by simp_all
    have nxt: "unat (cell + 1) = Suc (unat cell)"
      using True assms(2) by (simp add: unat_word_ariths)
    have "unat (cell + 1) \<le> cellCount board" "cellCount board - unat (cell + 1) < fuel"
      using True Suc.prems nxt by simp_all
    from Suc.IH [OF this] True invalid show ?thesis by simp
  qed
qed

section \<open>The claims\<close>

text \<open>
  Claim C1 says that initBoard returns a board with exactly \<^verbatim>\<open>size * size\<close> cells, all
  empty, and that the board operations keep that number of cells. In the code initBoard
  allocates \<^verbatim>\<open>size\<close> cells only, and resetBoard, which it calls, writes
  \<^verbatim>\<open>size * size\<close> cells: for every size from 2 on the write at index \<open>size\<close> is outside
  the block, whatever the fresh block holds. For the 3x3 board of the game the block has
  three cells and the fourth write leaves it. (On a well-formed board resetBoard and
  setCell keep the number of cells, see \<open>resetBoard_clears\<close> and \<open>setCell_Inr\<close>.)
\<close>

theorem initBoard_out_of_bounds:
  assumes "2 \<le> unat sz" "unat sz < fuel"
  shows "initBoard fuel fresh sz = Some (Inl OutOfBounds)"
  unfolding initBoard_def resetBoard_def
  using assms by (intro resetBoard_loop_overruns) simp_all

theorem initBoard_out_of_bounds_witness:
  "2 \<le> unat (3 :: 8 word) \<and> unat (3 :: 8 word) < 10 \<and>
   initBoard 10 (\<lambda>i. CHR ''?'') 3 = Some (Inl OutOfBounds)"
  using initBoard_out_of_bounds [of 3 10 "\<lambda>i. CHR ''?''"] by simp

text \<open>
  Claim C2 says that getBestMove returns the cell of the exhaustive search: the lowest
  valid cell whose score is maximal. In the code, on \<open>boardTwoWins\<close>, noughts win at once at cell 2, which the
  exhaustive search scores \<open>SCORE_WIN - 1\<close> and returns. getBestMove returns cell 4,
  the win in three plies: minimise does not test whether self has won, so the win at
  cell 2 is scored one ply late, as 125, and the win that fills the board after cell 4 is
  not scored at all, the bound \<^verbatim>\<open>beta\<close> = 127 comes back instead.
\<close>

theorem getBestMove_differs_from_exhaustive:
  "getBestMove 100 boardTwoWins NOUGHT = Some (Inr (boardTwoWins, 4)) \<and>
   exhaustiveBestMove boardTwoWins NOUGHT = Some 2 \<and>
   exhaustiveScores boardTwoWins NOUGHT =
     [(2, SCORE_WIN - 1), (4, SCORE_WIN - 3), (8, SCORE_LOSE + 2)]"
  by code_simp

text \<open>
  Claim C3. For a well-formed board and either player symbol, whenever getBestMove
  returns a cell, the board it hands back is the board it received, cell for cell; and
  on a board of at most 255 cells the call ends, with a cell and the unchanged board or
  at the failed \<^verbatim>\<open>assert\<close> on \<^verbatim>\<open>alpha\<close>.
\<close>

theorem getBestMove_leaves_board_unchanged:
  assumes "wellFormed board" "symbolSelf = NOUGHT \<or> symbolSelf = CROSS"
  shows "(\<forall>fuel board' cell. getBestMove fuel board symbolSelf = Some (Inr (board', cell))
            \<longrightarrow> board' = board) \<and>
         (cellCount board \<le> 255 \<longrightarrow>
            (\<exists>fuel. getBestMove fuel board symbolSelf = Some (Inl AssertionFailed) \<or>
                    (\<exists>cell. getBestMove fuel board symbolSelf = Some (Inr (board, cell)))))"
proof (intro conjI allI impI)
  fix fuel board' cell
  assume "getBestMove fuel board symbolSelf = Some (Inr (board', cell))"
  from getBestMove_restores [OF assms this] show "board' = board" by simp
next
  assume small: "cellCount board \<le> 255"
  let ?fuel = "(emptyCells board + 1) * (cellCount board + 2)"
  obtain r where r: "getBestMove ?fuel board symbolSelf = Some r"
    using getBestMove_returns [OF assms(1) small assms(2) order_refl] by blast
  from getBestMove_restores [OF assms r] r
  show "\<exists>fuel. getBestMove fuel board symbolSelf = Some (Inl AssertionFailed) \<or>
               (\<exists>cell. getBestMove fuel board symbolSelf = Some (Inr (board, cell)))"
    by blast
qed

theorem getBestMove_leaves_board_unchanged_witness:
  "wellFormed boardTwoWins \<and> cellCount boardTwoWins \<le> 255 \<and>
   getBestMove 100 boardTwoWins NOUGHT = Some (Inr (boardTwoWins, 4))"
proof -
  have wf: "wellFormed boardTwoWins"
    by (simp add: wellFormed_def cellCount_def boardTwoWins_def)
  have small: "cellCount boardTwoWins \<le> 255"
    by (simp add: cellCount_def boardTwoWins_def)
  have "map_option (map_sum id snd) (getBestMove 100 boardTwoWins NOUGHT) = Some (Inr 4)"
    by code_simp
  then obtain board' where run: "getBestMove 100 boardTwoWins NOUGHT = Some (Inr (board', 4))"
    by (cases "getBestMove 100 boardTwoWins NOUGHT") (auto simp: map_sum_def split: sum.splits)
  with getBestMove_leaves_board_unchanged [OF wf, of NOUGHT] have "board' = boardTwoWins"
    by blast
  with run wf small show ?thesis by simp
qed

text \<open>
  Claim C4 says that a position that self has won scores \<open>SCORE_WIN - depth\<close>, one that
  the opponent has won \<open>SCORE_LOSE + depth\<close>, and a draw 0, with the depth in plies since
  the top-level call. In the code a position won by self is first reached by
  minimise, which does not test the win of self, and one won by the opponent by maximise,
  which does not test the win of the opponent. On a full board won by one symbol only,
  minimise with the winner as self returns the bound \<^verbatim>\<open>beta\<close> it was called with, and
  maximise with the winner as opponent returns its \<^verbatim>\<open>alpha\<close>, whatever the depth.
  \<open>boardFullWon\<close> is such a board, reached by the third ply. On \<open>boardWon\<close>, reached by
  the first ply, won by noughts and not full, minimise with depth 1 returns
  \<open>SCORE_WIN - 2\<close>, the score that maximise gives one ply later. (What each step does
  score is in \<open>maximise_scores_win_of_self\<close>, \<open>minimise_scores_win_of_opponent\<close>,
  \<open>maximise_scores_draw\<close> and \<open>minimise_scores_draw\<close>.)
\<close>

theorem won_position_scores:
  assumes "wellFormed board" "cellCount board \<le> 255" "EMPTY \<notin> set (cells board)"
    "isWin board winner = Inr True" "isWin board loser = Inr False"
    "(winner = NOUGHT \<and> loser = CROSS) \<or> (winner = CROSS \<and> loser = NOUGHT)"
    "cellCount board + 1 < fuel"
  shows "minimise fuel board winner loser depth alpha beta = Some (Inr (board, beta)) \<and>
         maximise fuel board loser winner depth alpha beta = Some (Inr (board, alpha))"
proof -
  obtain f where f: "fuel = Suc f"
    using assms(7) by (cases fuel) simp_all
  have symbols: "winner \<noteq> EMPTY" "loser \<noteq> EMPTY"
    using assms(6) by auto
  have draw: "isDraw f board = Some (Inr False)"
    using assms(4,5,6) by (auto simp: isDraw_def)
  have enough: "unat (0 :: 8 word) \<le> cellCount board" "cellCount board - unat (0 :: 8 word) < f"
    using assms(7) f by simp_all
  from loops_on_full_board [OF assms(1-3) symbols enough]
    loops_on_full_board [OF assms(1-3) symbols(2,1) enough]
  show ?thesis
    using assms(4,5) draw f by simp
qed

theorem won_position_scores_witness:
  "wellFormed boardFullWon \<and> cellCount boardFullWon \<le> 255 \<and>
   EMPTY \<notin> set (cells boardFullWon) \<and>
   isWin boardFullWon NOUGHT = Inr True \<and> isWin boardFullWon CROSS = Inr False \<and>
   minimise 100 boardFullWon NOUGHT CROSS 3 (int8 SCORE_LOSE) (int8 SCORE_WIN)
     = Some (Inr (boardFullWon, 127)) \<and>
   minimise 100 boardFullWon NOUGHT CROSS 3 (int8 SCORE_LOSE) 0
     = Some (Inr (boardFullWon, 0)) \<and>
   maximise 100 boardFullWon CROSS NOUGHT 3 (int8 SCORE_LOSE) (int8 SCORE_WIN)
     = Some (Inr (boardFullWon, SCORE_LOSE)) \<and>
   isWin boardWon NOUGHT = Inr True \<and>
   minimise 100 boardWon NOUGHT CROSS 1 (int8 SCORE_LOSE) (int8 SCORE_WIN)
     = Some (Inr (boardWon, SCORE_WIN - 2))"
proof -
  have wf: "wellFormed boardFullWon"
    by (simp add: wellFormed_def cellCount_def boardFullWon_def)
  have small: "cellCount boardFullWon \<le> 255"
    by (simp add: cellCount_def boardFullWon_def)
  have full: "EMPTY \<notin> set (cells boardFullWon)"
    by (simp add: boardFullWon_def)
  have won: "isWin boardFullWon NOUGHT = Inr True" by code_simp
  have lost: "isWin boardFullWon CROSS = Inr False" by code_simp
  have fuel: "cellCount boardFullWon + 1 < 100"
    by (simp add: cellCount_def boardFullWon_def)
  have late: "isWin boardWon NOUGHT = Inr True \<and>
    minimise 100 boardWon NOUGHT CROSS 1 (int8 SCORE_LOSE) (int8 SCORE_WIN)
      = Some (Inr (boardWon, SCORE_WIN - 2))"
    by code_simp
  have bounds: "int8 SCORE_WIN = 127" "int8 SCORE_LOSE = SCORE_LOSE"
    by (simp_all add: int8_def SCORE_WIN_def SCORE_LOSE_def)
  show ?thesis
    using wf small full won lost late
      won_position_scores [OF wf small full won lost _ fuel, of 3 "int8 SCORE_LOSE" "int8 SCORE_WIN"]
      won_position_scores [OF wf small full won lost _ fuel, of 3 "int8 SCORE_LOSE" 0]
    by (simp add: bounds)
qed

text \<open>
  Claim C5 says that both steps test the win of self, the win of the opponent and the draw
  before they enumerate moves, so that no terminal position is expanded. In the code
  minimise tests the win
  of the opponent and the draw only, and maximise the win of self and the draw only; isDraw
  is false on a won board. So a board won by one symbol and not by the other is expanded,
  by minimise when the winner is self and by maximise when the winner is the opponent: the
  call goes on to the loop over the cells, for any depth and bounds. \<open>boardWon\<close>, won by
  noughts, is such a board.
\<close>

theorem won_position_is_expanded:
  assumes "isWin board winner = Inr True" "isWin board loser = Inr False"
    "(winner = NOUGHT \<and> loser = CROSS) \<or> (winner = CROSS \<and> loser = NOUGHT)"
  shows "minimise (Suc fuel) board winner loser depth alpha beta
           = minimise_loop fuel board winner loser depth alpha beta 0 \<and>
         maximise (Suc fuel) board loser winner depth alpha beta
           = maximise_loop fuel board loser winner depth alpha beta 0"
proof -
  have "isDraw fuel board = Some (Inr False)"
    using assms by (auto simp: isDraw_def)
  with assms(1,2) show ?thesis by simp
qed

theorem won_position_is_expanded_witness:
  "isWin boardWon NOUGHT = Inr True \<and> isWin boardWon CROSS = Inr False \<and>
   minimise 100 boardWon NOUGHT CROSS 1 (int8 SCORE_LOSE) (int8 SCORE_WIN)
     = minimise_loop 99 boardWon NOUGHT CROSS 1 (int8 SCORE_LOSE) (int8 SCORE_WIN) 0 \<and>
   maximise 100 boardWon CROSS NOUGHT 2 (int8 SCORE_LOSE) (int8 SCORE_WIN)
     = maximise_loop 99 boardWon CROSS NOUGHT 2 (int8 SCORE_LOSE) (int8 SCORE_WIN) 0"
proof -
  have won: "isWin boardWon NOUGHT = Inr True" by code_simp
  have lost: "isWin boardWon CROSS = Inr False" by code_simp
  show ?thesis
    using won lost
      won_position_is_expanded [OF won lost, of 99 1 "int8 SCORE_LOSE" "int8 SCORE_WIN"]
      won_position_is_expanded [OF won lost, of 99 2 "int8 SCORE_LOSE" "int8 SCORE_WIN"]
    by simp
qed

text \<open>
  Claim C6. On a well-formed board isWin returns true exactly when some row
  (indices \<open>r * size + j\<close>), some column (indices \<open>c + j * size\<close>), the forward
  diagonal (indices \<open>i * size + i\<close>) or the backward diagonal
  (indices \<open>(size - 1 - i) * size + i\<close>) holds the symbol in every cell.
\<close>

theorem isWin_iff_full_line:
  assumes "wellFormed board"
  shows "isWin board symbol = Inr (
     (\<exists>r < unat (bsize board). \<forall>j < unat (bsize board).
         cells board ! (r * unat (bsize board) + j) = symbol) \<or>
     (\<exists>c < unat (bsize board). \<forall>j < unat (bsize board).
         cells board ! (c + j * unat (bsize board)) = symbol) \<or>
     (\<forall>i < unat (bsize board). cells board ! (i * unat (bsize board) + i) = symbol) \<or>
     (\<forall>i < unat (bsize board).
         cells board ! ((unat (bsize board) - 1 - i) * unat (bsize board) + i) = symbol))"
  unfolding isWin_lines [OF assms] rowFull_def colFull_def
  by (auto simp: mult.commute)

theorem isWin_iff_full_line_witness:
  "wellFormed boardColumn \<and> isWin boardColumn CROSS = Inr True \<and>
   isWin boardColumn NOUGHT = Inr False"
proof -
  have wf: "wellFormed boardColumn"
    by (simp add: wellFormed_def cellCount_def boardColumn_def)
  have four: "\<And>P. (\<forall>i<4::nat. P i) = (P 0 \<and> P 1 \<and> P 2 \<and> P 3)"
    "\<And>P. (\<exists>i<4::nat. P i) = (P 0 \<or> P 1 \<or> P 2 \<or> P 3)"
    by (auto simp: numeral_eq_Suc less_Suc_eq)
  show ?thesis
    using wf isWin_iff_full_line [OF wf, of CROSS] isWin_iff_full_line [OF wf, of NOUGHT]
    by (simp add: boardColumn_def four EMPTY_def CROSS_def NOUGHT_def)
qed

text \<open>
  Claim C7 says that on every board isDraw is true exactly when isWin is false for noughts
  and for crosses and no cell is empty. In the code the loop of isDraw over the cells has a
  \<^verbatim>\<open>uint8_t\<close> counter and the \<^verbatim>\<open>int\<close> bound \<^verbatim>\<open>size * size\<close>: on a full board without
  a winner of size 16 or more no cell stops the loop and the counter stays below the
  bound, so isDraw never returns, whatever the fuel, where the claim has it return true.
  \<open>boardDrawn16\<close> is such a board. (Every value that isDraw does return satisfies the
  claim, and up to size 15 it returns, see \<open>isDraw_iff_when_it_returns\<close>.)
\<close>

theorem isDraw_never_returns_from_size_16:
  assumes "wellFormed board" "16 \<le> unat (bsize board)"
    "isWin board NOUGHT = Inr False" "isWin board CROSS = Inr False"
    "EMPTY \<notin> set (cells board)"
  shows "isDraw fuel board = None"
proof -
  have "256 \<le> cellCount board"
    using assms(2) by (rule large_cellCount)
  then have "isDraw_loop fuel board 0 = None"
    using assms(1,5) by (intro isDraw_loop_diverges)
  with assms(3,4) show ?thesis
    by (simp add: isDraw_def)
qed

theorem isDraw_never_returns_from_size_16_witness:
  "wellFormed boardDrawn16 \<and> 16 \<le> unat (bsize boardDrawn16) \<and>
   isWin boardDrawn16 NOUGHT = Inr False \<and> isWin boardDrawn16 CROSS = Inr False \<and>
   EMPTY \<notin> set (cells boardDrawn16) \<and> isDraw 1000 boardDrawn16 = None"
proof -
  have wf: "wellFormed boardDrawn16"
    by (simp add: wellFormed_def cellCount_def boardDrawn16_def)
  have big: "16 \<le> unat (bsize boardDrawn16)"
    by (simp add: boardDrawn16_def)
  have n: "isWin boardDrawn16 NOUGHT = Inr False" by code_simp
  have c: "isWin boardDrawn16 CROSS = Inr False" by code_simp
  have e: "EMPTY \<notin> set (cells boardDrawn16)"
    by (auto simp: boardDrawn16_def)
  show ?thesis
    using wf big n c e isDraw_never_returns_from_size_16 [OF wf big n c e, of 1000] by simp
qed

text \<open>
  Claim C8. On a well-formed board isValidMove returns true exactly when
  \<open>0 \<le> cell < size * size\<close> and the symbol is EMPTY or the cell holds EMPTY.
\<close>

theorem isValidMove_iff:
  assumes "wellFormed board"
  shows "isValidMove board cell symbol =
    Inr (0 \<le> unat cell \<and> unat cell < unat (bsize board) * unat (bsize board) \<and>
         (symbol = EMPTY \<or> cells board ! unat cell = EMPTY))"
  using isValidMove_wellFormed [OF assms] by (simp add: cellCount_def)

theorem isValidMove_iff_witness:
  "wellFormed boardTwoWins \<and> isValidMove boardTwoWins 4 CROSS = Inr True \<and>
   isValidMove boardTwoWins 3 CROSS = Inr False \<and> isValidMove boardTwoWins 3 EMPTY = Inr True \<and>
   isValidMove boardTwoWins 9 EMPTY = Inr False"
proof -
  have wf: "wellFormed boardTwoWins"
    by (simp add: wellFormed_def cellCount_def boardTwoWins_def)
  show ?thesis
    using wf isValidMove_iff [OF wf, of 4 CROSS] isValidMove_iff [OF wf, of 3 CROSS]
      isValidMove_iff [OF wf, of 3 EMPTY] isValidMove_iff [OF wf, of 9 EMPTY]
    by (simp add: boardTwoWins_def EMPTY_def CROSS_def NOUGHT_def)
qed

text \<open>
  Claim C9 says that the loops over the cells end for every size from 1 to 255. In the
  code the counter is a \<^verbatim>\<open>uint8_t\<close> and the bound \<^verbatim>\<open>size * size\<close> is an \<^verbatim>\<open>int\<close>: from size 16 on the bound
  is at least 256, the counter wraps from 255 to 0 below it, and neither
  resetBoard nor getBestMove returns, whatever the fuel. (Up to size 15 they return, see
  \<open>resetBoard_clears\<close>, \<open>isDraw_returns\<close> and \<open>getBestMove_returns\<close>.)
\<close>

theorem cell_loops_never_end_from_size_16:
  assumes "wellFormed board" "16 \<le> unat (bsize board)"
    "symbolSelf = NOUGHT \<or> symbolSelf = CROSS"
  shows "resetBoard fuel board = None \<and> getBestMove fuel board symbolSelf = None"
proof
  have big: "256 \<le> cellCount board"
    using assms(2) by (rule large_cellCount)
  show "resetBoard fuel board = None"
    unfolding resetBoard_def using big assms(1) by (rule resetBoard_loop_diverges)
  show "getBestMove fuel board symbolSelf = None"
    using assms(1) big assms(3) by (rule getBestMove_diverges)
qed

theorem cell_loops_never_end_from_size_16_witness:
  "wellFormed \<lparr>bsize = 16, cells = replicate 256 EMPTY\<rparr> \<and>
   16 \<le> unat (bsize \<lparr>bsize = 16, cells = replicate 256 EMPTY\<rparr>) \<and>
   resetBoard 1000 \<lparr>bsize = 16, cells = replicate 256 EMPTY\<rparr> = None \<and>
   getBestMove 1000 \<lparr>bsize = 16, cells = replicate 256 EMPTY\<rparr> NOUGHT = None"
proof -
  have wf: "wellFormed \<lparr>bsize = 16, cells = replicate 256 EMPTY\<rparr>"
    by (simp add: wellFormed_def cellCount_def)
  have big: "16 \<le> unat (bsize \<lparr>bsize = 16, cells = replicate 256 EMPTY\<rparr>)"
    by simp
  show ?thesis
    using wf big cell_loops_never_end_from_size_16 [OF wf big, of NOUGHT 1000] by simp
qed

text \<open>
  Claim C10 says that on a board with an empty cell every score that getBestMove computes
  exceeds \<open>SCORE_LOSE\<close>, so that the \<^verbatim>\<open>assert\<close> on \<^verbatim>\<open>alpha\<close> holds and the cell returned
  is a valid move. In the code, on \<open>boardLost\<close>, crosses have two
  moves, and after each of them noughts win with the move that fills the board. maximise
  does not test whether the opponent has won, finds no valid move on the full board and
  returns its \<^verbatim>\<open>alpha\<close>, which is \<open>SCORE_LOSE\<close>; both moves score \<open>SCORE_LOSE\<close>, no move
  is recorded and the \<^verbatim>\<open>assert\<close> fails. (When getBestMove does return, the cell is a valid
  move, see \<open>getBestMove_restores\<close>.)
\<close>

theorem getBestMove_assert_fails:
  "getBestMove 100 boardLost CROSS = Some (Inl AssertionFailed) \<and>
   minimise 100 (place boardLost 1 CROSS) CROSS NOUGHT 1 (int8 SCORE_LOSE) (int8 SCORE_WIN)
     = Some (Inr (place boardLost 1 CROSS, SCORE_LOSE))"
  by code_simp

end
